theory Spec2Isabelle
  imports Complex_Main "HOL-Library.Word" "HOL-Library.Product_Lexorder" "HOL-Library.Multiset"
begin

unbundle bit_operations_syntax

section \<open>Common types\<close>

text \<open>
  Python exceptions are values: every function of the source that can raise returns
  \<open>error + 'a\<close>, with \<open>Inl\<close> for the exception.  Floats are modelled as reals
  (no NaN, no infinities, no rounding); the statements below that involve scores hold for
  any totally ordered scores, so they do not depend on the rounding.
\<close>

datatype error =
  ValueError | IndexError | ZeroDivisionError | RuntimeError | UnicodeEncodeError | AttributeError

type_synonym byte = "8 word"

text \<open>Python's slice \<open>xs[a:b]\<close> for \<open>0 \<le> a\<close> and \<open>0 \<le> b\<close>.\<close>

definition py_slice :: "'a list \<Rightarrow> nat \<Rightarrow> nat \<Rightarrow> 'a list" where
  "py_slice xs a b = take (b - a) (drop a xs)"

section \<open>SineScramble cipher (engineering/sinescramble/cipher.py)\<close>

datatype OperationMode = MULTI_ROUND | SEGMENTED

record SineScrambleCipher =
  key :: "real list"
  mode :: OperationMode
  n :: nat
  amplitude :: real
  frequency :: real
  phase :: real

text \<open>\<open>SineScrambleCipher.__init__\<close>: an empty key is rejected.\<close>

definition cipher_init ::
  "real list \<Rightarrow> OperationMode \<Rightarrow> real \<Rightarrow> real \<Rightarrow> real \<Rightarrow> error + SineScrambleCipher" where
  "cipher_init k m a f p =
     (if k = [] then Inl ValueError
      else Inr \<lparr>key = k, mode = m, n = length k, amplitude = a, frequency = f, phase = p\<rparr>)"

text \<open>\<open>_scoring_function\<close>: \<open>A * sin(k * gamma + i * omega) + i\<close> for every index.\<close>

definition scoring_function :: "SineScrambleCipher \<Rightarrow> real \<Rightarrow> nat list \<Rightarrow> real list" where
  "scoring_function c key_component indices =
     map (\<lambda>i. amplitude c * sin (key_component * phase c + real i * frequency c) + real i) indices"

text \<open>
  \<open>np.argsort\<close>: the indices that sort the array.  The model is the stable argsort; numpy's
  default sort may order equal scores differently, and everything proved below uses only
  that the result is a permutation of the indices, computed the same way on both sides.
\<close>

definition argsort :: "'a::linorder list \<Rightarrow> nat list" where
  "argsort xs = map snd (sort_key fst (zip xs [0..<length xs]))"

definition generate_permutation_map_c :: "SineScrambleCipher \<Rightarrow> real \<Rightarrow> nat \<Rightarrow> nat list" where
  "generate_permutation_map_c c key_component data_size =
     argsort (scoring_function c key_component [0..<data_size])"

text \<open>\<open>_generate_substitution_mask\<close>: the fractional part of the score is above one half.\<close>

definition generate_substitution_mask :: "SineScrambleCipher \<Rightarrow> real \<Rightarrow> nat \<Rightarrow> bool list" where
  "generate_substitution_mask c key_component data_size =
     map (\<lambda>s. s - of_int \<lfloor>s\<rfloor> > 1 / 2) (scoring_function c key_component [0..<data_size])"

text \<open>
  \<open>_permute_data\<close>.  \<open>data[permutation_map]\<close> gathers; the inverse map is built by the
  scatter \<open>inverse_map[permutation_map] = arange\<close> into \<open>np.empty_like\<close> (here: zeros; every
  cell is overwritten when the map is a permutation).
\<close>

definition gather :: "'a list \<Rightarrow> nat list \<Rightarrow> 'a list" where
  "gather data idx = map (\<lambda>i. data ! i) idx"

definition scatter_arange :: "nat list \<Rightarrow> nat list" where
  "scatter_arange pm =
     fold (\<lambda>(i, p) acc. acc[p := i]) (zip [0..<length pm] pm) (replicate (length pm) 0)"

definition permute_data :: "'a list \<Rightarrow> nat list \<Rightarrow> bool \<Rightarrow> 'a list" where
  "permute_data data permutation_map is_inverse =
     (if is_inverse then gather data (scatter_arange permutation_map)
      else gather data permutation_map)"

text \<open>\<open>_substitute_data\<close>: XOR with the mask cast to bytes (0 or 1).\<close>

definition substitute_data :: "byte list \<Rightarrow> bool list \<Rightarrow> byte list" where
  "substitute_data data substitution_mask =
     map2 (\<lambda>d b. d XOR (if b then 1 else 0)) data substitution_mask"

definition transform_round :: "SineScrambleCipher \<Rightarrow> byte list \<Rightarrow> real \<Rightarrow> bool \<Rightarrow> byte list" where
  "transform_round c data key_component is_inverse =
     (let data_size = length data;
          permutation_map = generate_permutation_map_c c key_component data_size;
          substitution_mask = generate_substitution_mask c key_component data_size
      in if is_inverse
         then permute_data (substitute_data data substitution_mask) permutation_map True
         else substitute_data (permute_data data permutation_map False) substitution_mask)"

text \<open>Multi-round mode: rounds \<open>0 .. n-1\<close> to encrypt, \<open>n-1 .. 0\<close> with the inverse round to decrypt.\<close>

definition encrypt_multi_round :: "SineScrambleCipher \<Rightarrow> byte list \<Rightarrow> byte list" where
  "encrypt_multi_round c data =
     fold (\<lambda>i current. transform_round c current (key c ! i) False) [0..<n c] data"

definition decrypt_multi_round :: "SineScrambleCipher \<Rightarrow> byte list \<Rightarrow> byte list" where
  "decrypt_multi_round c data =
     fold (\<lambda>i current. transform_round c current (key c ! i) True) (rev [0..<n c]) data"

text \<open>
  Segmented mode: \<open>n\<close> contiguous segments of \<open>len // n\<close> bytes, the last one taking the
  remainder; segment \<open>i\<close> is transformed with key component \<open>i\<close>.  The executor's \<open>map\<close>
  returns the results in input order.
\<close>

definition segment_bounds :: "nat \<Rightarrow> nat \<Rightarrow> nat \<Rightarrow> nat \<Rightarrow> nat \<times> nat" where
  "segment_bounds cn data_size segment_size i =
     (i * segment_size, if i = cn - 1 then data_size else (i + 1) * segment_size)"

definition process_segments :: "SineScrambleCipher \<Rightarrow> byte list \<Rightarrow> bool \<Rightarrow> error + byte list" where
  "process_segments c data is_inverse =
     (if n c = 0 then Inl ZeroDivisionError
      else let data_size = length data; segment_size = data_size div n c
           in if segment_size = 0 then Inl ValueError
              else Inr (concat (map (\<lambda>i.
                     let (start_idx, end_idx) = segment_bounds (n c) data_size segment_size i
                     in transform_round c (py_slice data start_idx end_idx) (key c ! i) is_inverse)
                   [0..<n c])))"

definition encrypt_segmented :: "SineScrambleCipher \<Rightarrow> byte list \<Rightarrow> error + byte list" where
  "encrypt_segmented c data = process_segments c data False"

definition decrypt_segmented :: "SineScrambleCipher \<Rightarrow> byte list \<Rightarrow> error + byte list" where
  "decrypt_segmented c data = process_segments c data True"

definition encrypt :: "SineScrambleCipher \<Rightarrow> byte list \<Rightarrow> error + byte list" where
  "encrypt c data =
     (case mode c of MULTI_ROUND \<Rightarrow> Inr (encrypt_multi_round c data)
                   | SEGMENTED \<Rightarrow> encrypt_segmented c data)"

definition decrypt :: "SineScrambleCipher \<Rightarrow> byte list \<Rightarrow> error + byte list" where
  "decrypt c data =
     (case mode c of MULTI_ROUND \<Rightarrow> Inr (decrypt_multi_round c data)
                   | SEGMENTED \<Rightarrow> decrypt_segmented c data)"

text \<open>Segment \<open>i\<close> of a buffer, as both segmented loops cut it (used to state the lemmas).\<close>

definition seg_of :: "nat \<Rightarrow> 'a list \<Rightarrow> nat \<Rightarrow> 'a list" where
  "seg_of cn data i =
     (let (s, e) = segment_bounds cn (length data) (length data div cn) i in py_slice data s e)"


section \<open>Permutation core of the Licensee codec (engineering/licensee/permutation.py)\<close>

definition TOTAL_CHARS_TO_PERMUTE :: nat where
  "TOTAL_CHARS_TO_PERMUTE = 440"

text \<open>
  The loop \<open>for new_pos, (score, original_pos) in enumerate(scored_indices):
  permutation_map[original_pos] = new_pos\<close>.  Every \<open>original_pos\<close> comes from
  \<open>range(size)\<close>, so the store is always in range.
\<close>

definition map_from_sorted :: "('s \<times> nat) list \<Rightarrow> nat \<Rightarrow> nat list" where
  "map_from_sorted scored_indices sz =
     fold (\<lambda>(new_pos, (score, original_pos)) permutation_map.
             permutation_map[original_pos := new_pos])
       (enumerate 0 scored_indices) (replicate sz 0)"

text \<open>
  \<open>get_permutation_map\<close>: the key must lie in \<open>[0, 1]\<close>; the \<open>(score, index)\<close> tuples are
  sorted lexicographically, as Python compares tuples.
\<close>

definition get_permutation_map :: "real \<Rightarrow> error + nat list" where
  "get_permutation_map swap_param =
     (if \<not> (0 \<le> swap_param \<and> swap_param \<le> 1) then Inl ValueError
      else let scored_indices =
                 map (\<lambda>i. (sin (swap_param * 100 + real i * (2 / 10)) * 1000 + real i, i))
                   [0..<TOTAL_CHARS_TO_PERMUTE]
           in Inr (map_from_sorted (sort scored_indices) TOTAL_CHARS_TO_PERMUTE))"

text \<open>
  A loop of stores \<open>target[idx] = v\<close>: Python raises \<open>IndexError\<close> on an index beyond the
  list.  (The maps are lists of naturals: the maps the program builds hold no negative
  entry.)
\<close>

fun store_each :: "(nat \<times> 'a) list \<Rightarrow> 'a list \<Rightarrow> error + 'a list" where
  "store_each [] target = Inr target"
| "store_each ((idx, v) # rest) target =
     (if idx < length target then store_each rest (target[idx := v]) else Inl IndexError)"

definition get_inverse_permutation_map :: "nat list \<Rightarrow> error + nat list" where
  "get_inverse_permutation_map permutation_map =
     store_each (map (\<lambda>(original_pos, new_pos). (new_pos, original_pos))
                   (enumerate 0 permutation_map))
       (replicate TOTAL_CHARS_TO_PERMUTE 0)"

text \<open>
  \<open>apply_permutation\<close>: both lengths are checked, each character is stored at its new
  position in a list of empty strings, and the list is joined.
\<close>

definition apply_permutation :: "'a list \<Rightarrow> nat list \<Rightarrow> error + 'a list" where
  "apply_permutation input_chars permutation_map =
     (if length input_chars \<noteq> TOTAL_CHARS_TO_PERMUTE then Inl ValueError
      else if length permutation_map \<noteq> TOTAL_CHARS_TO_PERMUTE then Inl ValueError
      else case store_each (map (\<lambda>(original_pos, new_pos). (new_pos, [input_chars ! original_pos]))
                              (enumerate 0 permutation_map))
                  (replicate TOTAL_CHARS_TO_PERMUTE []) of
             Inl e \<Rightarrow> Inl e
           | Inr permuted_chars \<Rightarrow> Inr (concat permuted_chars))"

definition apply_inverse_permutation :: "'a list \<Rightarrow> nat list \<Rightarrow> error + 'a list" where
  "apply_inverse_permutation input_chars inverse_permutation_map =
     (if length input_chars \<noteq> TOTAL_CHARS_TO_PERMUTE then Inl ValueError
      else if length inverse_permutation_map \<noteq> TOTAL_CHARS_TO_PERMUTE then Inl ValueError
      else case store_each (map (\<lambda>(new_pos, original_pos). (original_pos, [input_chars ! new_pos]))
                              (enumerate 0 inverse_permutation_map))
                  (replicate TOTAL_CHARS_TO_PERMUTE []) of
             Inl e \<Rightarrow> Inl e
           | Inr original_chars \<Rightarrow> Inr (concat original_chars))"

section \<open>Permutation core of SineShift (engineering/sineshift/mutator.py)\<close>

record SineShiftMutator =
  frame_count :: nat
  base_frequency :: real
  scale_factor :: real
  offset_factor :: real

definition create_mutator :: "nat \<Rightarrow> SineShiftMutator" where
  "create_mutator fc =
     \<lparr>frame_count = fc, base_frequency = 10, scale_factor = 1000, offset_factor = 2 / 10\<rparr>"

text \<open>Python's \<open>a % b\<close> on floats, for \<open>b > 0\<close>: the remainder of the floored division.\<close>

definition py_float_mod :: "real \<Rightarrow> real \<Rightarrow> real" where
  "py_float_mod a b = a - of_int \<lfloor>a / b\<rfloor> * b"

text \<open>
  \<open>SineShiftMutator.generate_permutation_map\<close>: every non-negative key is accepted, and a
  key above \<open>2 * pi\<close> is reduced modulo \<open>2 * pi\<close> before it enters the score.
\<close>

definition generate_permutation_map :: "SineShiftMutator \<Rightarrow> real \<Rightarrow> error + nat list" where
  "generate_permutation_map m swap_param =
     (if swap_param < 0 then Inl ValueError
      else let scored_indices =
                 map (\<lambda>i. let normalized_param =
                               (if swap_param > 2 * pi then py_float_mod swap_param (2 * pi)
                                else swap_param)
                          in (sin (normalized_param * 100 + real i * offset_factor m)
                                * scale_factor m + real i, i))
                   [0..<frame_count m]
           in Inr (map_from_sorted (sort scored_indices) (frame_count m)))"

definition get_inverse_permutation_map_m :: "SineShiftMutator \<Rightarrow> nat list \<Rightarrow> error + nat list" where
  "get_inverse_permutation_map_m m permutation_map =
     store_each (map (\<lambda>(original_pos, new_pos). (new_pos, original_pos))
                   (enumerate 0 permutation_map))
       (replicate (frame_count m) 0)"

text \<open>The samples are stored into \<open>np.zeros_like(audio_data)\<close>.\<close>

definition apply_permutation_m ::
  "SineShiftMutator \<Rightarrow> 'a::zero list \<Rightarrow> nat list \<Rightarrow> error + 'a list" where
  "apply_permutation_m m audio_data permutation_map =
     (if length audio_data \<noteq> frame_count m then Inl ValueError
      else if length permutation_map \<noteq> frame_count m then Inl ValueError
      else store_each (map (\<lambda>(original_pos, new_pos). (new_pos, audio_data ! original_pos))
                         (enumerate 0 permutation_map))
             (replicate (frame_count m) 0))"

definition apply_inverse_permutation_m ::
  "SineShiftMutator \<Rightarrow> 'a::zero list \<Rightarrow> nat list \<Rightarrow> error + 'a list" where
  "apply_inverse_permutation_m m audio_data inverse_permutation_map =
     (if length audio_data \<noteq> frame_count m then Inl ValueError
      else if length inverse_permutation_map \<noteq> frame_count m then Inl ValueError
      else store_each (map (\<lambda>(new_pos, original_pos). (original_pos, audio_data ! new_pos))
                         (enumerate 0 inverse_permutation_map))
             (replicate (frame_count m) 0))"

text \<open>A list is a permutation of its own index range (used to state the lemmas).\<close>

definition is_perm :: "nat list \<Rightarrow> bool" where
  "is_perm pm = (distinct pm \<and> set pm = {0..<length pm})"

section \<open>Hash / XOF interface (xof_genetics/organism.py)\<close>

text \<open>
  \<open>SHA256Hash.hash\<close>.  The library call \<open>hashlib.sha256(x).digest()\<close> is the parameter
  \<open>digest\<close> (SHA-256 returns 32 bytes for every input).  The requested length is a byte
  count, a natural number.  The \<open>while\<close> loop runs as long as the buffer is shorter than
  the requested length; with a digest that returns no bytes it would not end, so the loop
  is a partial function and its result an option.
\<close>

partial_function (option) extend_loop ::
  "(byte list \<Rightarrow> byte list) \<Rightarrow> byte list \<Rightarrow> nat \<Rightarrow> byte list option" where
  "extend_loop digest extended len =
     (if length extended < len then extend_loop digest (extended @ digest extended) len
      else Some extended)"

definition SHA256Hash_hash ::
  "(byte list \<Rightarrow> byte list) \<Rightarrow> byte list \<Rightarrow> nat \<Rightarrow> byte list option" where
  "SHA256Hash_hash digest data len =
     (let result = digest data
      in if len \<le> length result then Some (take len result)
         else map_option (take len) (extend_loop digest result len))"

text \<open>
  The expansion as the specification words it: \<open>h0 = SHA256(D)\<close>, \<open>h_{k+1} = SHA256(h_k)\<close>,
  the blocks concatenated until the length is reached, then truncated.
\<close>

fun spec_chain :: "(byte list \<Rightarrow> byte list) \<Rightarrow> byte list \<Rightarrow> nat \<Rightarrow> byte list" where
  "spec_chain digest h 0 = h"
| "spec_chain digest h (Suc k) = h @ spec_chain digest (digest h) k"

definition spec_fixed_digest_xof ::
  "(byte list \<Rightarrow> byte list) \<Rightarrow> byte list \<Rightarrow> nat \<Rightarrow> byte list" where
  "spec_fixed_digest_xof digest D L =
     (let h0 = digest D
      in if L \<le> 32 then take L h0 else take L (spec_chain digest h0 (L div 32)))"

text \<open>
  A stand-in digest with 32-byte outputs, to run the expansion on concrete inputs: every
  byte of the digest is the length of the input modulo 256.
\<close>

definition length_digest :: "byte list \<Rightarrow> byte list" where
  "length_digest d = replicate 32 (of_nat (length d))"

section \<open>Licensee codec: payload (implementations/licensee/license_data.py)\<close>

definition ALPHABET :: string where
  "ALPHABET = ''0123456789ABCDEFGHJKMNPQRSTWVXYZ''"

definition ALPHABET_MAP :: "char \<rightharpoonup> nat" where
  "ALPHABET_MAP = map_of (zip ALPHABET [0..<length ALPHABET])"

definition TOTAL_BITS :: nat where
  "TOTAL_BITS = 150"

datatype field =
  F_mode_flag | F_swap_param | F_issue_date | F_license_plan | F_duration_expiry
  | F_key_holder_group | F_unique_license_id | F_version_lock | F_simple_checksum

fun BIT_ALLOCATIONS :: "field \<Rightarrow> nat" where
  "BIT_ALLOCATIONS F_mode_flag = 1"
| "BIT_ALLOCATIONS F_swap_param = 8"
| "BIT_ALLOCATIONS F_issue_date = 14"
| "BIT_ALLOCATIONS F_license_plan = 4"
| "BIT_ALLOCATIONS F_duration_expiry = 10"
| "BIT_ALLOCATIONS F_key_holder_group = 8"
| "BIT_ALLOCATIONS F_unique_license_id = 32"
| "BIT_ALLOCATIONS F_version_lock = 8"
| "BIT_ALLOCATIONS F_simple_checksum = 5"

record LicenseData =
  mode_flag :: int
  swap_param :: real
  issue_date_days :: int
  license_plan :: int
  duration_days :: int
  key_holder_group :: int
  unique_license_id :: int
  version_lock :: int
  simple_checksum :: int
  entropy_bits :: int
  entropy_value :: int

text \<open>Sequencing of computations that may raise.\<close>

definition and_then :: "error + 'a \<Rightarrow> ('a \<Rightarrow> error + 'b) \<Rightarrow> error + 'b" where
  "and_then m f = (case m of Inl e \<Rightarrow> Inl e | Inr x \<Rightarrow> f x)"

text \<open>Python's \<open>int(x)\<close> on a float truncates towards zero.\<close>

definition py_int :: "real \<Rightarrow> int" where
  "py_int x = (if 0 \<le> x then \<lfloor>x\<rfloor> else \<lceil>x\<rceil>)"

text \<open>
  \<open>pack_value\<close> inside \<open>to_bits\<close>; the state is \<open>(all_bits, current_bit_pos)\<close>.  A shift
  by a negative count raises \<open>ValueError\<close> in Python.
\<close>

definition pack_value :: "int \<Rightarrow> int \<Rightarrow> int \<times> int \<Rightarrow> error + int \<times> int" where
  "pack_value v num_bits st =
     (case st of (all_bits, current_bit_pos) \<Rightarrow>
        if num_bits < 0 then Inl ValueError
        else if v \<ge> push_bit (nat num_bits) 1 then Inl ValueError
        else let pos = current_bit_pos - num_bits
             in if pos < 0 then Inl ValueError
                else Inr (all_bits OR push_bit (nat pos) v, pos))"

fun pack_all :: "(int \<times> int) list \<Rightarrow> int \<times> int \<Rightarrow> error + int \<times> int" where
  "pack_all [] st = Inr st"
| "pack_all ((v, num_bits) # rest) st = and_then (pack_value v num_bits st) (pack_all rest)"

text \<open>\<open>int.to_bytes(n, 'big')\<close> by byte extraction, as \<open>to_bits\<close> writes it out.\<close>

definition extract_bytes :: "nat \<Rightarrow> int \<Rightarrow> byte list" where
  "extract_bytes bytes_needed aligned_bits =
     map (\<lambda>i. word_of_int (drop_bit ((bytes_needed - 1 - i) * 8) aligned_bits AND 255))
       [0..<bytes_needed]"

definition to_bits :: "LicenseData \<Rightarrow> error + byte list" where
  "to_bits d =
     and_then
       (pack_all
          ([(mode_flag d, int (BIT_ALLOCATIONS F_mode_flag))]
           @ (if mode_flag d = 1
              then [(py_int (swap_param d * real_of_int (push_bit (BIT_ALLOCATIONS F_swap_param) 1 - 1)),
                     int (BIT_ALLOCATIONS F_swap_param))]
              else [])
           @ [(issue_date_days d, int (BIT_ALLOCATIONS F_issue_date)),
              (license_plan d, int (BIT_ALLOCATIONS F_license_plan)),
              (duration_days d, int (BIT_ALLOCATIONS F_duration_expiry)),
              (key_holder_group d, int (BIT_ALLOCATIONS F_key_holder_group)),
              (unique_license_id d, int (BIT_ALLOCATIONS F_unique_license_id)),
              (version_lock d, int (BIT_ALLOCATIONS F_version_lock)),
              (simple_checksum d, int (BIT_ALLOCATIONS F_simple_checksum))])
          (0, int TOTAL_BITS))
       (\<lambda>st.
          let num_packed_bits = int TOTAL_BITS - entropy_bits d
          in if snd st \<noteq> int TOTAL_BITS - num_packed_bits then Inl RuntimeError
             else and_then (pack_value (entropy_value d) (entropy_bits d) st)
                    (\<lambda>(all_bits, current_bit_pos).
                       let bytes_needed = (TOTAL_BITS + 7) div 8;
                           aligned_bits = push_bit (bytes_needed * 8 - TOTAL_BITS) all_bits
                       in Inr (extract_bytes bytes_needed aligned_bits)))"

text \<open>
  \<open>from_bits\<close>: the fields are read from the most significant bit downwards.  (The two
  guards of \<open>to_bits\<close> on the constant \<open>TOTAL_BITS\<close>, more than 152 bits or at most 8 bytes,
  can never fire and are left out.)
\<close>

definition int_from_bytes :: "byte list \<Rightarrow> int" where
  "int_from_bytes bs = foldl (\<lambda>all_bits b. push_bit 8 all_bits OR uint b) 0 bs"

definition unpack_value :: "int \<Rightarrow> nat \<Rightarrow> nat \<Rightarrow> int" where
  "unpack_value all_bits current_bit_pos num_bits =
     drop_bit current_bit_pos all_bits AND (push_bit num_bits 1 - 1)"

definition from_bits :: "byte list \<Rightarrow> error + LicenseData" where
  "from_bits bit_bytes =
     (let bytes_provided = length bit_bytes
      in if bytes_provided * 8 < TOTAL_BITS then Inl ValueError
         else
           let all_bits = drop_bit (bytes_provided * 8 - TOTAL_BITS) (int_from_bytes bit_bytes);
               p0 = TOTAL_BITS - BIT_ALLOCATIONS F_mode_flag;
               mode = unpack_value all_bits p0 (BIT_ALLOCATIONS F_mode_flag);
               p1 = (if mode = 1 then p0 - BIT_ALLOCATIONS F_swap_param else p0);
               swap = (if mode = 1
                       then real_of_int (unpack_value all_bits p1 (BIT_ALLOCATIONS F_swap_param))
                            / real_of_int (push_bit (BIT_ALLOCATIONS F_swap_param) 1 - 1)
                       else 0);
               p2 = p1 - BIT_ALLOCATIONS F_issue_date;
               p3 = p2 - BIT_ALLOCATIONS F_license_plan;
               p4 = p3 - BIT_ALLOCATIONS F_duration_expiry;
               p5 = p4 - BIT_ALLOCATIONS F_key_holder_group;
               p6 = p5 - BIT_ALLOCATIONS F_unique_license_id;
               p7 = p6 - BIT_ALLOCATIONS F_version_lock;
               p8 = p7 - BIT_ALLOCATIONS F_simple_checksum;
               fixed_bits_unpacked = TOTAL_BITS - p8;
               ebits = TOTAL_BITS - fixed_bits_unpacked
           in Inr \<lparr>mode_flag = mode, swap_param = swap,
                   issue_date_days = unpack_value all_bits p2 (BIT_ALLOCATIONS F_issue_date),
                   license_plan = unpack_value all_bits p3 (BIT_ALLOCATIONS F_license_plan),
                   duration_days = unpack_value all_bits p4 (BIT_ALLOCATIONS F_duration_expiry),
                   key_holder_group = unpack_value all_bits p5 (BIT_ALLOCATIONS F_key_holder_group),
                   unique_license_id = unpack_value all_bits p6 (BIT_ALLOCATIONS F_unique_license_id),
                   version_lock = unpack_value all_bits p7 (BIT_ALLOCATIONS F_version_lock),
                   simple_checksum = unpack_value all_bits p8 (BIT_ALLOCATIONS F_simple_checksum),
                   entropy_bits = int ebits,
                   entropy_value = unpack_value all_bits (p8 - ebits) ebits\<rparr>)"

section \<open>Licensee codec: base-32 encoding (engineering/licensee/encoding.py)\<close>

definition ENCODED_CHARS_LEN :: nat where
  "ENCODED_CHARS_LEN = TOTAL_BITS div 5"

text \<open>The loop \<open>all_bits = (all_bits << 5) | ALPHABET_MAP[char]\<close>, \<open>ValueError\<close> on a foreign character.\<close>

fun read_chars :: "string \<Rightarrow> int \<Rightarrow> error + int" where
  "read_chars [] all_bits = Inr all_bits"
| "read_chars (c # cs) all_bits =
     (case ALPHABET_MAP c of
        None \<Rightarrow> Inl ValueError
      | Some five_bits \<Rightarrow> read_chars cs (push_bit 5 all_bits OR int five_bits))"

definition chars_to_bits :: "string \<Rightarrow> error + byte list" where
  "chars_to_bits encoded_chars =
     (if length encoded_chars \<noteq> ENCODED_CHARS_LEN then Inl ValueError
      else and_then (read_chars encoded_chars 0)
             (\<lambda>all_bits.
                let bytes_needed = (TOTAL_BITS + 7) div 8;
                    aligned_bits = push_bit (bytes_needed * 8 - TOTAL_BITS) all_bits
                in Inr (extract_bytes bytes_needed aligned_bits)))"

text \<open>\<open>bytes_to_alphabet_string\<close>: five bits per character, the last chunk left-aligned.\<close>

function encode_loop :: "int \<Rightarrow> nat \<Rightarrow> string" where
  "encode_loop all_bits bits_remaining =
     (if bits_remaining > 0
      then let bits_to_take = min 5 bits_remaining;
               shift_amount = bits_remaining - bits_to_take;
               five_bits = drop_bit shift_amount all_bits AND (push_bit bits_to_take 1 - 1);
               five_bits' = (if bits_to_take < 5 then push_bit (5 - bits_to_take) five_bits
                             else five_bits)
           in (ALPHABET ! nat five_bits') # encode_loop all_bits (bits_remaining - bits_to_take)
      else [])"
  by pat_completeness auto
termination
  by (relation "measure snd") auto

definition bytes_to_alphabet_string :: "byte list \<Rightarrow> string" where
  "bytes_to_alphabet_string input_bytes =
     encode_loop (int_from_bytes input_bytes) (length input_bytes * 8)"

definition alphabet_string_to_bytes :: "string \<Rightarrow> nat \<Rightarrow> error + byte list" where
  "alphabet_string_to_bytes input_string expected_total_bits =
     and_then (read_chars input_string 0)
       (\<lambda>all_bits.
          let total_bits_read = 5 * length input_string
          in if total_bits_read < expected_total_bits then Inl ValueError
             else let bits_to_discard = total_bits_read - expected_total_bits;
                      all_bits' = drop_bit bits_to_discard all_bits;
                      bytes_needed = (expected_total_bits + 7) div 8;
                      aligned_bits = push_bit (bytes_needed * 8 - expected_total_bits) all_bits'
                  in Inr (extract_bytes bytes_needed aligned_bits))"

section \<open>Licensee codec: generation and validation (implementations/licensee/license_manager.py)\<close>

definition SIGNATURE_BIT_LENGTH :: nat where
  "SIGNATURE_BIT_LENGTH = 2048"

definition calculate_simple_checksum :: "LicenseData \<Rightarrow> int" where
  "calculate_simple_checksum license_data =
     sum_list [mode_flag license_data, issue_date_days license_data, license_plan license_data,
               duration_days license_data, key_holder_group license_data,
               unique_license_id license_data, version_lock license_data]
       mod push_bit (BIT_ALLOCATIONS F_simple_checksum) 1"

text \<open>
  What the two functions take from outside the program: the random generator
  (\<open>random.random()\<close>, \<open>random.getrandbits(k)\<close>), the clock (the time since the epoch
  2024-01-01 UTC, in days), the RSA-PSS signer with the private key, and the verifier with
  the public key that \<open>load_public_key()\<close> returns.
\<close>

record Env =
  env_random :: real
  env_getrandbits :: "nat \<Rightarrow> int"
  env_now_days :: real
  env_sign :: "byte list \<Rightarrow> byte list"
  env_verify :: "byte list \<Rightarrow> byte list \<Rightarrow> bool"

text \<open>Python's \<open>sep.join(parts)\<close> and \<open>s.split(sep)\<close> for a one-character separator.\<close>

fun py_join :: "'a list \<Rightarrow> 'a list list \<Rightarrow> 'a list" where
  "py_join sep [] = []"
| "py_join sep [p] = p"
| "py_join sep (p # q # ps) = p @ sep @ py_join sep (q # ps)"

fun py_split :: "'a \<Rightarrow> 'a list \<Rightarrow> 'a list list" where
  "py_split sep [] = [[]]"
| "py_split sep (x # xs) =
     (if x = sep then [] # py_split sep xs
      else (case py_split sep xs of [] \<Rightarrow> [[x]] | p # ps \<Rightarrow> (x # p) # ps))"

text \<open>The segments \<open>[s[i : i + segment_length] for i in range(0, len(s), segment_length)]\<close>.\<close>

definition segments_of :: "nat \<Rightarrow> 'a list \<Rightarrow> 'a list list" where
  "segments_of segment_length xs =
     map (\<lambda>k. py_slice xs (k * segment_length) (k * segment_length + segment_length))
       [0..<(length xs + segment_length - 1) div segment_length]"

definition generate_license_key ::
  "Env \<Rightarrow> int \<Rightarrow> int \<Rightarrow> int \<Rightarrow> int \<Rightarrow> int \<Rightarrow> bool \<Rightarrow> real option \<Rightarrow> error + string" where
  "generate_license_key env plan duration grp uid vlock use_included_swap_param fixed_swap_param =
     (let mode_v = (if use_included_swap_param then 1 else 0 :: int)
      in and_then
           (if use_included_swap_param then Inr (env_random env)
            else (case fixed_swap_param of None \<Rightarrow> Inl ValueError | Some f \<Rightarrow> Inr f))
           (\<lambda>swap.
              let fixed_data_bits =
                    BIT_ALLOCATIONS F_mode_flag
                    + (if mode_v = 1 then BIT_ALLOCATIONS F_swap_param else 0)
                    + BIT_ALLOCATIONS F_issue_date + BIT_ALLOCATIONS F_license_plan
                    + BIT_ALLOCATIONS F_duration_expiry + BIT_ALLOCATIONS F_key_holder_group
                    + BIT_ALLOCATIONS F_unique_license_id + BIT_ALLOCATIONS F_version_lock
                    + BIT_ALLOCATIONS F_simple_checksum;
                  ebits = int TOTAL_BITS - int fixed_data_bits
              in if ebits < 0 then Inl ValueError
                 else
                   let evalue = (if ebits > 0 then env_getrandbits env (nat ebits) else 0);
                       days = \<lfloor>env_now_days env\<rfloor>;
                       issue = (if days < 0 then 0 else days);
                       temp_license_data =
                         \<lparr>mode_flag = mode_v, swap_param = swap, issue_date_days = issue,
                          license_plan = plan, duration_days = duration, key_holder_group = grp,
                          unique_license_id = uid, version_lock = vlock, simple_checksum = 0,
                          entropy_bits = ebits, entropy_value = 0\<rparr>;
                       final_license_data =
                         temp_license_data
                           \<lparr>simple_checksum := calculate_simple_checksum temp_license_data,
                            entropy_value := evalue\<rparr>
                   in and_then (to_bits final_license_data)
                        (\<lambda>license_data_bytes.
                           let signature_bytes = env_sign env license_data_bytes;
                               combined_bytes = license_data_bytes @ signature_bytes;
                               original_440_chars = bytes_to_alphabet_string combined_bytes
                           in and_then (get_permutation_map swap)
                                (\<lambda>perm_map.
                                   and_then (apply_permutation original_440_chars perm_map)
                                     (\<lambda>permuted_440_chars.
                                        Inr (py_join ''-'' (segments_of 5 permuted_440_chars)))))))"

text \<open>
  The body shared by the two \<open>try\<close> blocks of the validation helper: un-permute with a
  candidate parameter, decode the characters and unpack.  Whatever is raised in it is
  swallowed by \<open>except Exception: pass\<close>.
\<close>

definition try_unpack :: "string \<Rightarrow> real \<Rightarrow> error + LicenseData" where
  "try_unpack permuted_chars sp =
     and_then (get_permutation_map sp)
       (\<lambda>perm_map. and_then (get_inverse_permutation_map perm_map)
          (\<lambda>inv_perm_map. and_then (apply_inverse_permutation permuted_chars inv_perm_map)
             (\<lambda>original_chars. and_then (chars_to_bits original_chars) from_bits)))"

fun brute_force :: "string \<Rightarrow> nat list \<Rightarrow> (int \<times> real \<times> LicenseData option) option" where
  "brute_force permuted_chars [] = None"
| "brute_force permuted_chars (swap_param_int # rest) =
     (let current_swap_param =
            real swap_param_int / real_of_int (push_bit (BIT_ALLOCATIONS F_swap_param) 1 - 1)
      in case try_unpack permuted_chars current_swap_param of
           Inl e \<Rightarrow> brute_force permuted_chars rest
         | Inr unpacked_data \<Rightarrow>
             if mode_flag unpacked_data = 1
                \<and> \<bar>swap_param unpacked_data - current_swap_param\<bar> < 1 / 100
                \<and> simple_checksum unpacked_data = calculate_simple_checksum unpacked_data
             then Some (1, current_swap_param, Some unpacked_data)
             else brute_force permuted_chars rest)"

definition get_mode_and_swap_param_from_permuted_chars_robust ::
  "string \<Rightarrow> real option \<Rightarrow> int \<times> real \<times> LicenseData option" where
  "get_mode_and_swap_param_from_permuted_chars_robust permuted_chars hardcoded_swap_param =
     (case (case hardcoded_swap_param of
              None \<Rightarrow> None
            | Some hp \<Rightarrow>
                (case try_unpack permuted_chars hp of
                   Inl e \<Rightarrow> None
                 | Inr unpacked_data \<Rightarrow>
                     if mode_flag unpacked_data = 0
                        \<and> simple_checksum unpacked_data = calculate_simple_checksum unpacked_data
                     then Some (0, hp, Some unpacked_data) else None)) of
        Some r \<Rightarrow> r
      | None \<Rightarrow>
          (if hardcoded_swap_param = None
           then (case brute_force permuted_chars
                        [0..<nat (push_bit (BIT_ALLOCATIONS F_swap_param) 1)] of
                   Some r \<Rightarrow> r
                 | None \<Rightarrow> (- 1, 0, None))
           else (- 1, 0, None)))"

text \<open>
  \<open>validate_license_key\<close>, step by step as the source numbers them.  The result is
  \<open>None\<close> for a rejected key; \<open>permuted_chars.encode("ascii")\<close> raises on a character
  outside ASCII, and nothing catches it.
\<close>

definition validate_license_key :: "Env \<Rightarrow> string \<Rightarrow> int \<Rightarrow> real option \<Rightarrow> error + LicenseData option" where
  "validate_license_key env license_key_string current_app_version hardcoded_swap_param =
     (let parts = py_split CHR ''-'' license_key_string
      in if length parts \<noteq> 7 then Inr None
         else
           let segmented_chars = take 6 parts;
               encoded_signature = parts ! 6;
               permuted_chars = concat segmented_chars
           in if length permuted_chars \<noteq> TOTAL_CHARS_TO_PERMUTE then Inr None
              else
                (case alphabet_string_to_bytes encoded_signature SIGNATURE_BIT_LENGTH of
                   Inl e \<Rightarrow> Inr None
                 | Inr signature_bytes \<Rightarrow>
                     if list_ex (\<lambda>c. (of_char c :: nat) \<ge> 128) permuted_chars
                     then Inl UnicodeEncodeError
                     else
                       let data_to_verify = map (\<lambda>c. of_nat (of_char c) :: byte) permuted_chars
                       in if \<not> env_verify env data_to_verify signature_bytes then Inr None
                          else
                            (case get_mode_and_swap_param_from_permuted_chars_robust
                                    permuted_chars hardcoded_swap_param of
                               (determined_mode, determined_swap_param, None) \<Rightarrow> Inr None
                             | (determined_mode, determined_swap_param, Some unpacked_license_data) \<Rightarrow>
                                 if determined_mode = - 1 then Inr None
                                 else if determined_mode \<noteq> mode_flag unpacked_license_data then Inr None
                                 else if simple_checksum unpacked_license_data
                                         \<noteq> calculate_simple_checksum unpacked_license_data
                                 then Inr None
                                 else if env_now_days env
                                         > real_of_int (issue_date_days unpacked_license_data)
                                           + real_of_int (duration_days unpacked_license_data)
                                 then Inr None
                                 else if version_lock unpacked_license_data > 0
                                         \<and> version_lock unpacked_license_data \<noteq> current_app_version
                                 then Inr None
                                 else Inr (Some unpacked_license_data))))"

section \<open>XOF-Genetics organisms (xof_genetics/organism.py)\<close>

datatype ReproductionMethod =
  DIRECT_ASEXUAL | SELF_REPRODUCTION | SEXUAL | MUTATION | ROTATION | PERMUTATION
  | COMBINED_TRANSFORMATIONS | ENHANCED_SEXUAL

text \<open>The members of the enumeration, in the order of \<open>enumerate(ReproductionMethod)\<close>.\<close>

definition all_methods :: "ReproductionMethod list" where
  "all_methods = [DIRECT_ASEXUAL, SELF_REPRODUCTION, SEXUAL, MUTATION, ROTATION, PERMUTATION,
                  COMBINED_TRANSFORMATIONS, ENHANCED_SEXUAL]"

datatype OrganismMode = BASIC | DUAL_ENCODED

text \<open>
  \<open>OrganismConfig\<close>.  The hash function is any object with a \<open>hash(data, length)\<close> method;
  here a function from the data and the length to the bytes.
\<close>

record OrganismConfig =
  genome_length :: nat
  hash_function :: "byte list \<Rightarrow> nat \<Rightarrow> byte list"
  org_mode :: OrganismMode
  enabled_methods :: "ReproductionMethod list"
  combination_strategy :: string
  mutation_masks :: "byte list list"
  rotation_positions :: "int list"
  permutation_maps :: "nat list list"
  method_weights :: "ReproductionMethod \<rightharpoonup> real"
  meta_genome_length :: nat
  enable_dual_encoding :: bool
  enable_reciprocal_reproduction :: bool

text \<open>
  The strategy dictionary.  Its \<open>enabled_methods\<close> is a Python set; a set is iterated in no
  specified order, and the model lists its members in the order of the enumeration.
\<close>

record Strategy =
  st_enabled_methods :: "ReproductionMethod list"
  st_mutation_masks :: "byte list list"
  st_rotation_positions :: "int list"
  st_permutation_maps :: "nat list list"
  st_method_weights :: "ReproductionMethod \<rightharpoonup> real"
  st_combination_strategy :: string

record Organism =
  genome :: "byte list"
  config :: OrganismConfig
  fitness :: real
  generation :: int
  meta_genome :: "byte list option"
  reproduction_strategy :: Strategy

text \<open>\<open>Organism.__eq__\<close>: two organisms are equal when genome and meta-genome are.\<close>

definition org_eq :: "Organism \<Rightarrow> Organism \<Rightarrow> bool" where
  "org_eq a b = (genome a = genome b \<and> meta_genome a = meta_genome b)"

text \<open>
  The pseudo-random generator of the \<open>random\<close> module: the numbers it will deliver, consumed
  one by one.  \<open>random.choice\<close>, \<open>random.randint\<close>, \<open>random.sample\<close> and \<open>random.choices\<close>
  read their decisions from it (the probabilities are not modelled: every element can be
  chosen).
\<close>

type_synonym rnd = "nat list"

definition draw :: "rnd \<Rightarrow> nat \<times> rnd" where
  "draw r = (case r of [] \<Rightarrow> (0, []) | x # xs \<Rightarrow> (x, xs))"

definition random_choice :: "'a list \<Rightarrow> rnd \<Rightarrow> error + 'a \<times> rnd" where
  "random_choice xs r =
     (if xs = [] then Inl IndexError
      else let (k, r') = draw r in Inr (xs ! (k mod length xs), r'))"

definition random_randint :: "nat \<Rightarrow> nat \<Rightarrow> rnd \<Rightarrow> error + nat \<times> rnd" where
  "random_randint a b r =
     (if b < a then Inl ValueError
      else let (k, r') = draw r in Inr (a + k mod (b - a + 1), r'))"

fun random_sample :: "'a list \<Rightarrow> nat \<Rightarrow> rnd \<Rightarrow> error + 'a list \<times> rnd" where
  "random_sample xs 0 r = Inr ([], r)"
| "random_sample xs (Suc k) r =
     (if xs = [] then Inl ValueError
      else let (i, r') = draw r; j = i mod length xs
           in and_then (random_sample (take j xs @ drop (Suc j) xs) k r')
                (\<lambda>(ys, r''). Inr (xs ! j # ys, r'')))"

fun random_choices :: "'a list \<Rightarrow> nat \<Rightarrow> rnd \<Rightarrow> error + 'a list \<times> rnd" where
  "random_choices xs 0 r = Inr ([], r)"
| "random_choices xs (Suc k) r =
     and_then (random_choice xs r)
       (\<lambda>(x, r'). and_then (random_choices xs k r') (\<lambda>(ys, r''). Inr (x # ys, r'')))"

text \<open>Loops that extend a list of children, without and with random decisions.\<close>

fun collect :: "('x \<Rightarrow> error + 'a list) \<Rightarrow> 'x list \<Rightarrow> error + 'a list" where
  "collect f [] = Inr []"
| "collect f (x # xs) = and_then (f x) (\<lambda>ys. and_then (collect f xs) (\<lambda>zs. Inr (ys @ zs)))"

fun collect_rnd ::
  "('x \<Rightarrow> rnd \<Rightarrow> error + 'a list \<times> rnd) \<Rightarrow> 'x list \<Rightarrow> rnd \<Rightarrow> error + 'a list \<times> rnd" where
  "collect_rnd f [] r = Inr ([], r)"
| "collect_rnd f (x # xs) r =
     and_then (f x r)
       (\<lambda>(ys, r'). and_then (collect_rnd f xs r') (\<lambda>(zs, r''). Inr (ys @ zs, r'')))"

text \<open>\<open>_parse_genome_strategy\<close>: the strategy is read from fixed byte positions of the genome.\<close>

definition tile_mask :: "byte list \<Rightarrow> nat \<Rightarrow> byte list" where
  "tile_mask mask_bytes G =
     (if mask_bytes = [] then map (\<lambda>i. of_nat (i mod 256)) [0..<G]
      else map (\<lambda>i. mask_bytes ! (i mod length mask_bytes)) [0..<G])"

definition swap_build :: "byte list \<Rightarrow> nat \<Rightarrow> nat list" where
  "swap_build perm_bytes G =
     fold (\<lambda>(j, b) perm_map.
             if j < length perm_map
             then let swap_idx = (j + unat b) mod length perm_map
                  in perm_map[j := perm_map ! swap_idx, swap_idx := perm_map ! j]
             else perm_map)
       (enumerate 0 perm_bytes) [0..<G]"

definition parse_genome_strategy :: "byte list \<Rightarrow> OrganismConfig \<Rightarrow> error + Strategy" where
  "parse_genome_strategy g cfg =
     (if length g < 2 then Inl IndexError
      else if genome_length cfg = 0 then Inl ZeroDivisionError
      else
        let G = genome_length cfg;
            method_flags = g ! 0
        in Inr \<lparr>st_enabled_methods =
                  map snd (filter (\<lambda>(i, m). bit method_flags i) (enumerate 0 all_methods)),
                st_mutation_masks =
                  map (\<lambda>i. tile_mask (py_slice g (2 + i * 32) (2 + i * 32 + 32)) G) [0..<3],
                st_rotation_positions =
                  map (\<lambda>i. int_from_bytes (py_slice g (98 + i * 2) (98 + i * 2 + 2)) mod int G)
                    [0..<4],
                st_permutation_maps =
                  map (\<lambda>i. swap_build (py_slice g (106 + i * 32) (106 + i * 32 + 32)) G) [0..<3],
                st_method_weights =
                  map_of (map (\<lambda>(i, m). (m, if i < 8 \<and> 202 + i < length g
                                                then real (unat (g ! (202 + i))) / 255
                                                else 1 / 2))
                            (enumerate 0 all_methods)),
                st_combination_strategy = [''all'', ''random'', ''weighted''] ! (unat (g ! 1) mod 3)\<rparr>)"

text \<open>
  \<open>_parse_reproduction_strategy\<close>.  The mode is \<open>BASIC\<close> or \<open>DUAL_ENCODED\<close>, so the second
  branch of the source takes every organism that is not basic, and reads the genome.
\<close>

definition parse_reproduction_strategy :: "byte list \<Rightarrow> OrganismConfig \<Rightarrow> error + Strategy" where
  "parse_reproduction_strategy g cfg =
     (case org_mode cfg of
        BASIC \<Rightarrow>
          Inr \<lparr>st_enabled_methods = filter (\<lambda>m. m \<in> set (enabled_methods cfg)) all_methods,
               st_mutation_masks = mutation_masks cfg,
               st_rotation_positions = rotation_positions cfg,
               st_permutation_maps = permutation_maps cfg,
               st_method_weights = method_weights cfg,
               st_combination_strategy = combination_strategy cfg\<rparr>
      | DUAL_ENCODED \<Rightarrow> parse_genome_strategy g cfg)"

text \<open>\<open>Organism.__init__\<close>: fitness 0.0, generation 0.\<close>

definition Organism_init :: "byte list \<Rightarrow> OrganismConfig \<Rightarrow> byte list option \<Rightarrow> error + Organism" where
  "Organism_init g cfg mg =
     (if length g \<noteq> genome_length cfg then Inl ValueError
      else and_then
             (case org_mode cfg of
                DUAL_ENCODED \<Rightarrow>
                  (case mg of
                     None \<Rightarrow> Inl ValueError
                   | Some m \<Rightarrow> if length m \<noteq> meta_genome_length cfg then Inl ValueError
                              else Inr (Some m))
              | BASIC \<Rightarrow> Inr None)
             (\<lambda>mg'. and_then (parse_reproduction_strategy g cfg)
                (\<lambda>st. Inr \<lparr>genome = g, config = cfg, fitness = 0, generation = 0,
                            meta_genome = mg', reproduction_strategy = st\<rparr>)))"

text \<open>\<open>xs[0]\<close>: the first element, \<open>IndexError\<close> on an empty list.\<close>

definition first_of :: "'a list \<Rightarrow> error + 'a" where
  "first_of xs = (case xs of [] \<Rightarrow> Inl IndexError | x # rest \<Rightarrow> Inr x)"

text \<open>A child: a new organism for the hashed pre-image, with its generation set.\<close>

definition make_child :: "Organism \<Rightarrow> byte list \<Rightarrow> int \<Rightarrow> error + Organism" where
  "make_child self pre_image gen =
     and_then (Organism_init (hash_function (config self) pre_image (genome_length (config self)))
                 (config self) (meta_genome self))
       (\<lambda>child. Inr (child\<lparr>generation := gen\<rparr>))"

definition direct_asexual_reproduction :: "Organism \<Rightarrow> error + Organism list" where
  "direct_asexual_reproduction self =
     and_then (make_child self (genome self) (generation self + 1)) (\<lambda>child. Inr [child])"

definition mutate :: "Organism \<Rightarrow> byte list \<Rightarrow> error + Organism list" where
  "mutate self mutation_mask =
     (if length mutation_mask \<noteq> genome_length (config self) then Inl ValueError
      else and_then (make_child self (map2 (XOR) (genome self) mutation_mask) (generation self + 1))
             (\<lambda>child. Inr [child]))"

definition rotate_org :: "Organism \<Rightarrow> int \<Rightarrow> error + Organism list" where
  "rotate_org self positions =
     (if genome_length (config self) = 0 then Inl ZeroDivisionError
      else let p = nat (positions mod int (genome_length (config self)))
           in and_then (make_child self (drop p (genome self) @ take p (genome self))
                          (generation self + 1))
                (\<lambda>child. Inr [child]))"

definition permute :: "Organism \<Rightarrow> nat list \<Rightarrow> error + Organism list" where
  "permute self permutation_map =
     (if length permutation_map \<noteq> genome_length (config self) then Inl ValueError
      else if set permutation_map \<noteq> {0..<genome_length (config self)} then Inl ValueError
      else and_then (make_child self (map (\<lambda>i. genome self ! i) permutation_map)
                       (generation self + 1))
             (\<lambda>child. Inr [child]))"

text \<open>
  \<open>reproduce_sexually\<close>: two reciprocal children, or one child whose first half comes from
  a parent chosen by \<open>random.choice([True, False])\<close>.
\<close>

definition reproduce_sexually :: "Organism \<Rightarrow> Organism \<Rightarrow> rnd \<Rightarrow> error + Organism list \<times> rnd" where
  "reproduce_sexually self partner r =
     (let split_point = genome_length (config self) div 2;
          pre_image1 = take split_point (genome self) @ drop split_point (genome partner);
          pre_image2 = take split_point (genome partner) @ drop split_point (genome self);
          gen = max (generation self) (generation partner) + 1
      in if enable_reciprocal_reproduction (config self)
         then and_then (make_child self pre_image1 gen)
                (\<lambda>child1. and_then (make_child self pre_image2 gen)
                   (\<lambda>child2. Inr ([child1, child2], r)))
         else and_then (random_choice [True, False] r)
                (\<lambda>(first_from_self, r').
                   and_then (make_child self (if first_from_self then pre_image1 else pre_image2) gen)
                     (\<lambda>child. Inr ([child], r'))))"

text \<open>
  \<open>asexual_self_reproduction\<close>: the direct asexual child, and a second child from the genome
  split and rejoined (when the configuration enables \<open>SEXUAL\<close>) or from a mutation with a
  randomly chosen mask of the configuration.
\<close>

definition asexual_self_reproduction :: "Organism \<Rightarrow> rnd \<Rightarrow> error + Organism list \<times> rnd" where
  "asexual_self_reproduction self r =
     and_then (direct_asexual_reproduction self)
       (\<lambda>child1_list. and_then (first_of child1_list) (\<lambda>child1.
          if SEXUAL \<in> set (enabled_methods (config self))
             then let split_point = genome_length (config self) div 2;
                      pre_image = take split_point (genome self) @ drop split_point (genome self)
                  in and_then (make_child self pre_image (generation self + 1))
                       (\<lambda>child2. Inr ([child1, child2], r))
             else and_then (random_choice (mutation_masks (config self)) r)
                    (\<lambda>(mask, r'). and_then (mutate self mask)
                       (\<lambda>child2_list. and_then (first_of child2_list)
                          (\<lambda>child2. Inr ([child1, child2], r'))))))"

text \<open>An operator applied to both parents, the children of the first parent first.\<close>

definition both_parents ::
  "(Organism \<Rightarrow> 'x \<Rightarrow> error + Organism list) \<Rightarrow> Organism \<Rightarrow> Organism \<Rightarrow> 'x \<Rightarrow> error + Organism list" where
  "both_parents f self partner x =
     and_then (f self x) (\<lambda>a. and_then (f partner x) (\<lambda>b. Inr (a @ b)))"

text \<open>The combined transformation: the first child of the mutation, rotated.\<close>

definition mutate_then_rotate :: "byte list \<Rightarrow> Organism \<Rightarrow> int \<Rightarrow> error + Organism list" where
  "mutate_then_rotate mutation_mask self pos =
     and_then (mutate self mutation_mask)
       (\<lambda>mutated_list. and_then (first_of mutated_list) (\<lambda>mutated. rotate_org mutated pos))"

text \<open>
  \<open>omni_reproduce\<close>: the eight groups of offspring, in the order of the source.  The
  children are returned as the operators made them.
\<close>

definition omni_reproduce :: "Organism \<Rightarrow> Organism option \<Rightarrow> rnd \<Rightarrow> error + Organism list \<times> rnd" where
  "omni_reproduce self partner_opt r =
     (let partner = (case partner_opt of None \<Rightarrow> self | Some p \<Rightarrow> p);
          cfg = config self
      in and_then (direct_asexual_reproduction self) (\<lambda>c1.
         and_then (direct_asexual_reproduction partner) (\<lambda>c2.
         and_then (asexual_self_reproduction self r) (\<lambda>(c3, r1).
         and_then (asexual_self_reproduction partner r1) (\<lambda>(c4, r2).
         and_then (reproduce_sexually self partner r2) (\<lambda>(c5, r3).
         and_then (collect (both_parents mutate self partner) (take 5 (mutation_masks cfg))) (\<lambda>c6.
         and_then (collect (both_parents rotate_org self partner) (take 5 (rotation_positions cfg))) (\<lambda>c7.
         and_then (collect (both_parents permute self partner) (take 5 (permutation_maps cfg))) (\<lambda>c8.
         and_then (collect (\<lambda>mask. collect (both_parents (mutate_then_rotate mask) self partner)
                                     (take 3 (rotation_positions cfg)))
                     (take 3 (mutation_masks cfg))) (\<lambda>c9.
         and_then (reproduce_sexually self partner r3) (\<lambda>(sexual_children, r4).
         and_then (collect (\<lambda>child. collect (mutate child) (take 3 (mutation_masks cfg)))
                     sexual_children) (\<lambda>c10.
         Inr (c1 @ c2 @ c3 @ c4 @ c5 @ c6 @ c7 @ c8 @ c9 @ c10, r4)))))))))))))"

text \<open>\<open>list.index\<close>: the position of the first equal element, \<open>ValueError\<close> when there is none.\<close>

fun index_of :: "'a list \<Rightarrow> 'a \<Rightarrow> error + nat" where
  "index_of [] y = Inl ValueError"
| "index_of (x # xs) y = (if x = y then Inr 0 else and_then (index_of xs y) (\<lambda>k. Inr (Suc k)))"

definition weight_of :: "(ReproductionMethod \<rightharpoonup> real) \<Rightarrow> ReproductionMethod \<Rightarrow> real" where
  "weight_of w m = (case w m of None \<Rightarrow> 1 / 2 | Some x \<Rightarrow> x)"

definition combine_strategies :: "Organism \<Rightarrow> Organism \<Rightarrow> error + Strategy" where
  "combine_strategies self partner =
     (let s1 = reproduction_strategy self; s2 = reproduction_strategy partner;
          strategies = [''all'', ''random'', ''weighted'']
      in and_then (index_of strategies (st_combination_strategy s1)) (\<lambda>idx1.
         and_then (index_of strategies (st_combination_strategy s2)) (\<lambda>idx2.
         Inr \<lparr>st_enabled_methods =
                filter (\<lambda>m. m \<in> set (st_enabled_methods s1) \<union> set (st_enabled_methods s2))
                  all_methods,
              st_mutation_masks = st_mutation_masks s1 @ st_mutation_masks s2,
              st_rotation_positions = st_rotation_positions s1 @ st_rotation_positions s2,
              st_permutation_maps = st_permutation_maps s1 @ st_permutation_maps s2,
              st_method_weights =
                map_of (map (\<lambda>m. (m, (weight_of (st_method_weights s1) m
                                        + weight_of (st_method_weights s2) m) / 2))
                          all_methods),
              st_combination_strategy = strategies ! max idx1 idx2\<rparr>)))"

definition select_methods :: "Strategy \<Rightarrow> rnd \<Rightarrow> error + ReproductionMethod list \<times> rnd" where
  "select_methods strategy r =
     (let enabled = (if st_enabled_methods strategy = [] then [DIRECT_ASEXUAL]
                     else st_enabled_methods strategy);
          cs = st_combination_strategy strategy
      in if cs = ''all'' then Inr (enabled, r)
         else if cs = ''random''
         then and_then (random_randint 1 (min 3 (length enabled)) r)
                (\<lambda>(num_methods, r'). random_sample enabled num_methods r')
         else if cs = ''weighted''
         then (if sum_list (map (weight_of (st_method_weights strategy)) enabled) > 0
               then and_then (random_randint 1 3 r) (\<lambda>(k, r'). random_choices enabled k r')
               else random_sample enabled (min 3 (length enabled)) r)
         else Inr (enabled, r))"

text \<open>An operator for \<open>self\<close>, and for the partner when the partner is not equal to \<open>self\<close>.\<close>

definition self_and_other ::
  "(Organism \<Rightarrow> 'x \<Rightarrow> error + Organism list) \<Rightarrow> Organism \<Rightarrow> Organism \<Rightarrow> 'x \<Rightarrow> error + Organism list" where
  "self_and_other f self partner x =
     and_then (f self x)
       (\<lambda>a. if \<not> org_eq partner self then and_then (f partner x) (\<lambda>b. Inr (a @ b)) else Inr a)"

text \<open>
  \<open>_apply_reproduction_method\<close>.  Every caller passes an organism as partner, so the
  partner is not optional here.
\<close>

definition apply_reproduction_method ::
  "ReproductionMethod \<Rightarrow> Organism \<Rightarrow> Organism \<Rightarrow> Strategy \<Rightarrow> rnd \<Rightarrow> error + Organism list \<times> rnd" where
  "apply_reproduction_method method self partner strategy r =
     (case method of
        DIRECT_ASEXUAL \<Rightarrow>
          and_then (self_and_other (\<lambda>org u. direct_asexual_reproduction org) self partner ())
            (\<lambda>cs. Inr (cs, r))
      | SELF_REPRODUCTION \<Rightarrow>
          and_then (asexual_self_reproduction self r)
            (\<lambda>(a, r1). if \<not> org_eq partner self
                        then and_then (asexual_self_reproduction partner r1)
                               (\<lambda>(b, r2). Inr (a @ b, r2))
                        else Inr (a, r1))
      | SEXUAL \<Rightarrow> reproduce_sexually self partner r
      | MUTATION \<Rightarrow>
          and_then (collect (self_and_other mutate self partner) (st_mutation_masks strategy))
            (\<lambda>cs. Inr (cs, r))
      | ROTATION \<Rightarrow>
          and_then (collect (self_and_other rotate_org self partner) (st_rotation_positions strategy))
            (\<lambda>cs. Inr (cs, r))
      | PERMUTATION \<Rightarrow>
          and_then (collect (self_and_other permute self partner) (st_permutation_maps strategy))
            (\<lambda>cs. Inr (cs, r))
      | COMBINED_TRANSFORMATIONS \<Rightarrow>
          and_then
            (collect (\<lambda>mask.
                        collect (self_and_other
                                   (\<lambda>org pos. and_then (mutate org mask)
                                                (collect (\<lambda>mutated. rotate_org mutated pos)))
                                   self partner)
                          (take 2 (st_rotation_positions strategy)))
               (take 2 (st_mutation_masks strategy)))
            (\<lambda>cs. Inr (cs, r))
      | ENHANCED_SEXUAL \<Rightarrow>
          and_then (reproduce_sexually self partner r)
            (\<lambda>(sexual_children, r').
               and_then (collect (\<lambda>child. collect (mutate child) (take 2 (st_mutation_masks strategy)))
                           sexual_children)
                 (\<lambda>cs. Inr (cs, r'))))"

text \<open>
  \<open>_dual_encoded_reproduction\<close>: whatever the selected methods produce, every child gets
  the generation \<open>max(self.generation, partner.generation) + 1\<close> at the end.
\<close>

definition dual_encoded_reproduction :: "Organism \<Rightarrow> Organism \<Rightarrow> rnd \<Rightarrow> error + Organism list \<times> rnd" where
  "dual_encoded_reproduction self partner r =
     and_then (combine_strategies self partner) (\<lambda>combined_strategy.
     and_then (select_methods combined_strategy r) (\<lambda>(methods_to_use, r1).
     and_then (collect_rnd (\<lambda>method. apply_reproduction_method method self partner combined_strategy)
                 methods_to_use r1) (\<lambda>(children, r2).
     let target_generation = max (generation self) (generation partner) + 1
     in Inr (map (\<lambda>child. child\<lparr>generation := target_generation\<rparr>) children, r2))))"

definition dual_encoded_self_reproduction :: "Organism \<Rightarrow> rnd \<Rightarrow> error + Organism list \<times> rnd" where
  "dual_encoded_self_reproduction self r = dual_encoded_reproduction self self r"

definition basic_asexual_reproduction :: "Organism \<Rightarrow> rnd \<Rightarrow> error + Organism list \<times> rnd" where
  "basic_asexual_reproduction self r =
     and_then (if DIRECT_ASEXUAL \<in> set (st_enabled_methods (reproduction_strategy self))
               then direct_asexual_reproduction self else Inr [])
       (\<lambda>a. if SELF_REPRODUCTION \<in> set (st_enabled_methods (reproduction_strategy self))
             then and_then (asexual_self_reproduction self r) (\<lambda>(b, r'). Inr (a @ b, r'))
             else Inr (a, r))"

definition basic_sexual_reproduction :: "Organism \<Rightarrow> Organism \<Rightarrow> rnd \<Rightarrow> error + Organism list \<times> rnd" where
  "basic_sexual_reproduction self partner r =
     (if SEXUAL \<in> set (st_enabled_methods (reproduction_strategy self))
      then reproduce_sexually self partner r else Inr ([], r))"

definition reproduce :: "Organism \<Rightarrow> Organism option \<Rightarrow> rnd \<Rightarrow> error + Organism list \<times> rnd" where
  "reproduce self partner_opt r =
     (case org_mode (config self) of
        BASIC \<Rightarrow>
          (case partner_opt of
             None \<Rightarrow> basic_asexual_reproduction self r
           | Some partner \<Rightarrow> basic_sexual_reproduction self partner r)
      | DUAL_ENCODED \<Rightarrow>
          (case partner_opt of
             None \<Rightarrow> dual_encoded_self_reproduction self r
           | Some partner \<Rightarrow> dual_encoded_reproduction self partner r))"

text \<open>
  Organisms for concrete runs.  The hash is a custom \<open>HashFunction\<close>: every byte of the
  data plus one, cut or padded with zero bytes to the requested length.  The configuration
  has genomes of two bytes, one mutation mask, one rotation and one permutation map.
\<close>

definition incr_hash :: "byte list \<Rightarrow> nat \<Rightarrow> byte list" where
  "incr_hash data len = take len (map (\<lambda>b. b + 1) data @ replicate len 0)"

definition demo_config :: OrganismConfig where
  "demo_config = \<lparr>genome_length = 2, hash_function = incr_hash, org_mode = BASIC,
                   enabled_methods = all_methods, combination_strategy = ''all'',
                   mutation_masks = [[1, 1]], rotation_positions = [1],
                   permutation_maps = [[1, 0]], method_weights = (\<lambda>m. Some 1),
                   meta_genome_length = 2, enable_dual_encoding = False,
                   enable_reciprocal_reproduction = True\<rparr>"

text \<open>
  What \<open>Organism(genome, demo_config)\<close> builds: the strategy of a basic organism is taken
  from its configuration (lemma \<open>demo_organism_init\<close>).
\<close>

definition demo_strategy :: Strategy where
  "demo_strategy = \<lparr>st_enabled_methods = all_methods, st_mutation_masks = [[1, 1]],
                     st_rotation_positions = [1], st_permutation_maps = [[1, 0]],
                     st_method_weights = (\<lambda>m. Some 1), st_combination_strategy = ''all''\<rparr>"

definition demo_organism :: "byte list \<Rightarrow> int \<Rightarrow> Organism" where
  "demo_organism g gen = \<lparr>genome = g, config = demo_config, fitness = 0, generation = gen,
                           meta_genome = None, reproduction_strategy = demo_strategy\<rparr>"

text \<open>
  The same configuration in dual-encoded mode, with a meta-genome of two zero bytes; the
  strategy is parsed from the genome (lemma \<open>dual_organism_init\<close>).
\<close>

definition dual_config :: OrganismConfig where
  "dual_config = demo_config\<lparr>org_mode := DUAL_ENCODED, enable_dual_encoding := True\<rparr>"

definition dual_organism :: "byte list \<Rightarrow> int \<Rightarrow> Organism" where
  "dual_organism g gen = \<lparr>genome = g, config = dual_config, fitness = 0, generation = gen,
                           meta_genome = Some [0, 0],
                           reproduction_strategy = projr (parse_genome_strategy g dual_config)\<rparr>"

text \<open>The generation numbers of the children a reproduction returned.\<close>

definition generations_of :: "error + Organism list \<times> rnd \<Rightarrow> error + int list" where
  "generations_of res = (case res of Inl e \<Rightarrow> Inl e | Inr (cs, r) \<Rightarrow> Inr (map generation cs))"

(*DEFS-END*)

section \<open>Proofs: SineScramble\<close>

lemma mset_argsort: "mset (argsort xs) = mset [0..<length xs]"
proof -
  have "mset (map snd (sort_key fst (zip xs [0..<length xs]))) = image_mset snd (mset (sort_key fst (zip xs [0..<length xs])))"
    by simp
  also have "\<dots> = image_mset snd (mset (zip xs [0..<length xs]))" by simp
  also have "\<dots> = mset (map snd (zip xs [0..<length xs]))" by (simp only: mset_map)
  also have "\<dots> = mset [0..<length xs]" by (simp only: map_snd_zip length_upt diff_zero)
  finally show ?thesis by (simp only: argsort_def)
qed

lemma length_argsort: "length (argsort xs) = length xs"
  by (simp add: argsort_def)

lemma set_argsort: "set (argsort xs) = {0..<length xs}"
  using mset_argsort[of xs] by (metis set_mset_mset set_upt)

lemma distinct_argsort: "distinct (argsort xs)"
  using mset_argsort[of xs] by (metis distinct_upt mset_eq_imp_distinct_iff)

lemma length_fold_scatter: "length (fold (\<lambda>(i, p) acc. acc[p := i]) ps acc) = length acc"
  by (induction ps arbitrary: acc) (auto split: prod.splits)

lemma fold_scatter_untouched:
  "q \<notin> snd ` set ps \<Longrightarrow> fold (\<lambda>(i, p) acc. acc[p := i]) ps acc ! q = acc ! q"
  by (induction ps arbitrary: acc) (auto split: prod.splits)

lemma fold_scatter_hit:
  "distinct (map snd ps) \<Longrightarrow> (i, p) \<in> set ps \<Longrightarrow> p < length acc \<Longrightarrow>
   fold (\<lambda>(i, p) acc. acc[p := i]) ps acc ! p = (i::nat)"
proof (induction ps arbitrary: acc)
  case Nil
  then show ?case by simp
next
  case (Cons a ps)
  obtain j q where a: "a = (j, q)" by (cases a)
  show ?case
  proof (cases "(i, p) = (j, q)")
    case True
    then have "q \<notin> snd ` set ps" using Cons.prems(1) a by auto
    then show ?thesis using True a Cons.prems(3) by (simp add: fold_scatter_untouched)
  next
    case False
    then have "(i, p) \<in> set ps" using Cons.prems(2) a by auto
    then show ?thesis using Cons.IH[of "acc[q := j]"] Cons.prems a by simp
  qed
qed

lemma length_scatter_arange: "length (scatter_arange pm) = length pm"
  by (simp add: scatter_arange_def length_fold_scatter)

lemma scatter_arange_nth:
  assumes "distinct pm" "set pm = {0..<length pm}" "i < length pm"
  shows "scatter_arange pm ! (pm ! i) = i"
proof -
  have d: "distinct (map snd (zip [0..<length pm] pm))" using assms(1) by simp
  have m: "(i, pm ! i) \<in> set (zip [0..<length pm] pm)"
    using assms(3) by (auto simp: set_zip intro!: exI[of _ i])
  have "pm ! i < length pm" using assms by (metis atLeastLessThan_iff nth_mem)
  then show ?thesis
    unfolding scatter_arange_def using fold_scatter_hit[OF d m] by simp
qed


lemma pm_nth_scatter:
  assumes "distinct pm" "set pm = {0..<length pm}" "k < length pm"
  shows "pm ! (scatter_arange pm ! k) = k"
proof -
  from assms(2,3) have "k \<in> set pm" by simp
  then obtain i where i: "i < length pm" "pm ! i = k" by (auto simp: in_set_conv_nth)
  then show ?thesis using scatter_arange_nth[OF assms(1,2) i(1)] by simp
qed

lemma scatter_arange_bound:
  assumes "distinct pm" "set pm = {0..<length pm}" "k < length pm"
  shows "scatter_arange pm ! k < length pm"
proof -
  from assms(2,3) have "k \<in> set pm" by simp
  then obtain i where i: "i < length pm" "pm ! i = k" by (auto simp: in_set_conv_nth)
  then show ?thesis using scatter_arange_nth[OF assms(1,2) i(1)] by simp
qed

lemma gather_inverse:
  assumes "distinct pm" "set pm = {0..<length pm}" "length data = length pm"
  shows "gather (gather data pm) (scatter_arange pm) = data"
proof (rule nth_equalityI)
  show "length (gather (gather data pm) (scatter_arange pm)) = length data"
    by (simp add: gather_def length_scatter_arange assms(3))
next
  fix k assume "k < length (gather (gather data pm) (scatter_arange pm))"
  then have k: "k < length pm" by (simp add: gather_def length_scatter_arange)
  have b: "scatter_arange pm ! k < length pm" by (rule scatter_arange_bound[OF assms(1,2) k])
  show "gather (gather data pm) (scatter_arange pm) ! k = data ! k"
    using k b pm_nth_scatter[OF assms(1,2) k]
    by (simp add: gather_def length_scatter_arange)
qed

lemma length_gather: "length (gather data idx) = length idx"
  by (simp add: gather_def)

lemma length_substitute_data:
  "length m = length d \<Longrightarrow> length (substitute_data d m) = length d"
  by (simp add: substitute_data_def)

lemma substitute_data_involution:
  "length m = length d \<Longrightarrow> substitute_data (substitute_data d m) m = d"
proof (induction d arbitrary: m)
  case Nil
  then show ?case by (simp add: substitute_data_def)
next
  case (Cons a d)
  then obtain b m' where m: "m = b # m'" by (cases m) auto
  have x: "(a XOR 1) XOR 1 = a" by (simp add: bit.xor_left_self xor.assoc)
  with Cons m show ?case by (simp add: substitute_data_def)
qed

lemma length_generate_permutation_map_c:
  "length (generate_permutation_map_c c k sz) = sz"
  by (simp add: generate_permutation_map_c_def length_argsort scoring_function_def)

lemma length_generate_substitution_mask:
  "length (generate_substitution_mask c k sz) = sz"
  by (simp add: generate_substitution_mask_def scoring_function_def)

lemma perm_generate_permutation_map_c:
  "distinct (generate_permutation_map_c c k sz)"
  "set (generate_permutation_map_c c k sz) = {0..<length (generate_permutation_map_c c k sz)}"
  by (simp_all add: generate_permutation_map_c_def distinct_argsort set_argsort length_argsort)

lemma length_transform_round: "length (transform_round c d k b) = length d"
  by (simp add: transform_round_def Let_def permute_data_def length_gather
      length_scatter_arange length_generate_permutation_map_c
      length_substitute_data length_generate_substitution_mask)

lemma transform_round_inverse:
  "transform_round c (transform_round c d k False) k True = d"
proof -
  let ?pm = "generate_permutation_map_c c k (length d)"
  let ?mk = "generate_substitution_mask c k (length d)"
  have l: "length (gather d ?pm) = length d"
    by (simp add: length_gather length_generate_permutation_map_c)
  have "transform_round c d k False = substitute_data (gather d ?pm) ?mk"
    by (simp add: transform_round_def permute_data_def Let_def)
  moreover have "length (substitute_data (gather d ?pm) ?mk) = length d"
    using l by (simp add: length_substitute_data length_generate_substitution_mask)
  ultimately have "transform_round c (transform_round c d k False) k True
      = gather (substitute_data (substitute_data (gather d ?pm) ?mk) ?mk) (scatter_arange ?pm)"
    by (simp add: transform_round_def permute_data_def Let_def)
  also have "\<dots> = gather (gather d ?pm) (scatter_arange ?pm)"
    using l by (simp add: substitute_data_involution length_generate_substitution_mask)
  also have "\<dots> = d"
    by (rule gather_inverse) (simp_all add: perm_generate_permutation_map_c length_generate_permutation_map_c)
  finally show ?thesis .
qed

lemma fold_rev_cancel:
  assumes "\<And>x d. g x (f x d) = d"
  shows "fold g (rev xs) (fold f xs d) = d"
  using assms by (induction xs arbitrary: d) simp_all

lemma multi_round_round_trip: "decrypt_multi_round c (encrypt_multi_round c d) = d"
  unfolding decrypt_multi_round_def encrypt_multi_round_def
  by (rule fold_rev_cancel) (rule transform_round_inverse)

lemma slice_append_shift:
  "py_slice (xs @ ys) (length xs + a) (length xs + b) = py_slice ys a b"
  by (simp add: py_slice_def)

lemma slice_concat_nth:
  assumes "\<forall>j. Suc j < length xss \<longrightarrow> length (xss ! j) = seg" "i < length xss"
  shows "py_slice (concat xss) (i * seg)
           (if i = length xss - 1 then length (concat xss) else (i + 1) * seg) = xss ! i"
  using assms
proof (induction xss arbitrary: i)
  case Nil
  then show ?case by simp
next
  case (Cons xs rest)
  show ?case
  proof (cases i)
    case 0
    show ?thesis
    proof (cases "rest = []")
      case True
      then show ?thesis using 0 by (simp add: py_slice_def)
    next
      case False
      then have "length xs = seg" using Cons.prems(1)[rule_format, of 0] by (cases rest) auto
      then show ?thesis using 0 False by (simp add: py_slice_def)
    qed
  next
    case (Suc i')
    then have ne: "rest \<noteq> []" and i': "i' < length rest" using Cons.prems(2) by auto
    have lx: "length xs = seg" using Cons.prems(1)[rule_format, of 0] ne by (cases rest) auto
    have pre: "\<forall>j. Suc j < length rest \<longrightarrow> length (rest ! j) = seg"
      using Cons.prems(1) by (metis Suc_less_eq length_Cons nth_Cons_Suc)
    have ih: "py_slice (concat rest) (i' * seg)
           (if i' = length rest - 1 then length (concat rest) else (i' + 1) * seg) = rest ! i'"
      by (rule Cons.IH[OF pre i'])
    have eqi: "(i = length (xs # rest) - 1) = (i' = length rest - 1)"
      using Suc ne by (cases rest) auto
    have st: "i * seg = length xs + i' * seg" using Suc lx by simp
    have en: "(if i = length (xs # rest) - 1 then length (concat (xs # rest)) else (i + 1) * seg)
        = length xs + (if i' = length rest - 1 then length (concat rest) else (i' + 1) * seg)"
      using Suc lx eqi by simp
    have "py_slice (concat (xs # rest)) (i * seg)
           (if i = length (xs # rest) - 1 then length (concat (xs # rest)) else (i + 1) * seg)
        = py_slice (xs @ concat rest) (length xs + i' * seg)
           (length xs + (if i' = length rest - 1 then length (concat rest) else (i' + 1) * seg))"
      using st en by simp
    also have "\<dots> = rest ! i'" by (simp only: slice_append_shift ih)
    finally show ?thesis using Suc by simp
  qed
qed

lemma concat_full_slices:
  "m * seg \<le> length data \<Longrightarrow>
   concat (map (\<lambda>i. py_slice data (i * seg) ((i + 1) * seg)) [0..<m]) = take (m * seg) data"
proof (induction m)
  case 0
  then show ?case by simp
next
  case (Suc m)
  then have "concat (map (\<lambda>i. py_slice data (i * seg) ((i + 1) * seg)) [0..<m]) = take (m * seg) data"
    by simp
  moreover have "take (m * seg) data @ py_slice data (m * seg) ((m + 1) * seg) = take (Suc m * seg) data"
  proof -
    have a: "Suc m * seg = m * seg + seg" by simp
    have b: "(m + 1) * seg - m * seg = seg" by simp
    show ?thesis unfolding py_slice_def a b by (simp only: take_add)
  qed
  ultimately show ?case by simp
qed


lemma seg_of_alt:
  "seg_of cn data i = py_slice data (i * (length data div cn))
     (if i = cn - 1 then length data else (i + 1) * (length data div cn))"
  by (simp add: seg_of_def segment_bounds_def)

lemma seg_of_full:
  assumes "Suc i < cn"
  shows "seg_of cn data i = py_slice data (i * (length data div cn)) ((i + 1) * (length data div cn))"
proof -
  have "i \<noteq> cn - 1" using assms by arith
  then show ?thesis by (simp add: seg_of_alt)
qed

lemma seg_of_last:
  "0 < cn \<Longrightarrow> seg_of cn data (cn - 1) = drop ((cn - 1) * (length data div cn)) data"
  by (simp add: seg_of_def segment_bounds_def py_slice_def)

lemma div_mult_bound: "0 < cn \<Longrightarrow> (cn - 1) * (L div cn) \<le> (L::nat)"
proof -
  assume "0 < cn"
  have "(cn - 1) * (L div cn) \<le> cn * (L div cn)" by (simp add: mult_le_mono1)
  also have "\<dots> \<le> L" by simp
  finally show ?thesis .
qed

lemma length_seg_of_full:
  assumes "Suc i < cn"
  shows "length (seg_of cn data i) = length data div cn"
proof -
  let ?s = "length data div cn"
  have "i + 1 \<le> cn - 1" using assms by arith
  then have "(i + 1) * ?s \<le> (cn - 1) * ?s" by (rule mult_le_mono1)
  also have "\<dots> \<le> length data" using assms by (intro div_mult_bound) simp
  finally have "(i + 1) * ?s \<le> length data" .
  then show ?thesis using assms by (simp add: seg_of_full py_slice_def)
qed

lemma concat_seg_of:
  assumes "0 < cn"
  shows "concat (map (seg_of cn data) [0..<cn]) = data"
proof -
  let ?s = "length data div cn"
  obtain m where m: "cn = Suc m" using assms by (cases cn) auto
  have "map (seg_of cn data) [0..<m] = map (\<lambda>i. py_slice data (i * ?s) ((i + 1) * ?s)) [0..<m]"
    using m by (intro map_cong) (simp_all add: seg_of_full)
  moreover have "m * ?s \<le> length data" using div_mult_bound[OF assms, of "length data"] m by simp
  ultimately have "concat (map (seg_of cn data) [0..<m]) = take (m * ?s) data"
    by (simp only: concat_full_slices)
  moreover have "seg_of cn data m = drop (m * ?s) data"
    using seg_of_last[OF assms, of data] m by simp
  ultimately show ?thesis using m by simp
qed

lemma process_segments_eq:
  "0 < n c \<Longrightarrow> 0 < length data div n c \<Longrightarrow>
   process_segments c data b =
     Inr (concat (map (\<lambda>i. transform_round c (seg_of (n c) data i) (key c ! i) b) [0..<n c]))"
  by (simp add: process_segments_def seg_of_def Let_def case_prod_beta)

lemma process_segments_error:
  "0 < n c \<Longrightarrow> (process_segments c data b = Inl ValueError) = (length data < n c)"
  by (auto simp: process_segments_def Let_def div_eq_0_iff)

lemma length_concat_transform:
  "length (concat (map (\<lambda>i. transform_round c (f i) (g i) b) is)) = length (concat (map f is))"
  by (induction "is") (simp_all add: length_transform_round)

lemma segmented_round_trip:
  assumes n: "0 < n c" and len: "n c \<le> length data"
  shows "\<exists>y. process_segments c data False = Inr y \<and> length y = length data \<and>
             process_segments c y True = Inr data"
proof -
  let ?cn = "n c"
  let ?xss = "map (\<lambda>i. transform_round c (seg_of ?cn data i) (key c ! i) False) [0..<?cn]"
  let ?y = "concat ?xss"
  have seg: "0 < length data div ?cn" using n len by (simp add: div_greater_zero_iff)
  have e: "process_segments c data False = Inr ?y" by (rule process_segments_eq[OF n seg])
  have ly: "length ?y = length data"
    using length_concat_transform[of c "seg_of ?cn data" "\<lambda>i. key c ! i" False "[0..<?cn]"]
    by (simp add: concat_seg_of[OF n])
  have lens: "\<forall>j. Suc j < length ?xss \<longrightarrow> length (?xss ! j) = length data div ?cn"
    by (simp add: length_transform_round length_seg_of_full)
  have segy: "seg_of ?cn ?y i = ?xss ! i" if i: "i < ?cn" for i
  proof -
    have "py_slice (concat ?xss) (i * (length data div ?cn))
           (if i = length ?xss - 1 then length (concat ?xss) else (i + 1) * (length data div ?cn)) = ?xss ! i"
      by (rule slice_concat_nth[OF lens]) (simp add: i)
    moreover have "seg_of ?cn ?y i = py_slice ?y (i * (length ?y div ?cn))
       (if i = ?cn - 1 then length ?y else (i + 1) * (length ?y div ?cn))"
      by (rule seg_of_alt)
    ultimately show ?thesis by (simp only: ly length_map length_upt diff_zero)
  qed
  have "process_segments c ?y True
      = Inr (concat (map (\<lambda>i. transform_round c (seg_of ?cn ?y i) (key c ! i) True) [0..<?cn]))"
    by (rule process_segments_eq[OF n]) (simp add: ly seg)
  also have "map (\<lambda>i. transform_round c (seg_of ?cn ?y i) (key c ! i) True) [0..<?cn]
      = map (seg_of ?cn data) [0..<?cn]"
    by (intro map_cong refl) (simp add: segy transform_round_inverse)
  finally have "process_segments c ?y True = Inr data" by (simp only: concat_seg_of[OF n])
  with e ly show ?thesis by blast
qed

lemma cipher_init_Inr:
  "cipher_init k m a f p = Inr c \<Longrightarrow>
   k \<noteq> [] \<and> key c = k \<and> mode c = m \<and> n c = length k"
  by (auto simp: cipher_init_def split: if_splits)

lemma fold_index_eq_fold_list:
  "fold (\<lambda>i. g (xs ! i)) [0..<length xs] d = fold g xs d"
proof -
  have "fold (\<lambda>i. g (xs ! i)) [0..<length xs] d = fold (g \<circ> (\<lambda>i. xs ! i)) [0..<length xs] d"
    by (simp add: comp_def)
  also have "\<dots> = fold g (map (\<lambda>i. xs ! i) [0..<length xs]) d" by (simp only: fold_map)
  also have "\<dots> = fold g xs d" by (simp only: map_nth)
  finally show ?thesis .
qed

lemma fold_index_rev_eq_fold_list:
  "fold (\<lambda>i. g (xs ! i)) (rev [0..<length xs]) d = fold g (rev xs) d"
proof -
  have "fold (\<lambda>i. g (xs ! i)) (rev [0..<length xs]) d
      = fold (g \<circ> (\<lambda>i. xs ! i)) (rev [0..<length xs]) d"
    by (simp add: comp_def)
  also have "\<dots> = fold g (map (\<lambda>i. xs ! i) (rev [0..<length xs])) d" by (simp only: fold_map)
  also have "\<dots> = fold g (rev xs) d" by (simp only: rev_map[symmetric] map_nth)
  finally show ?thesis .
qed

lemma length_fold_transform_round:
  "length (fold (\<lambda>i current. transform_round c current (g i) b) is d) = length d"
  by (induction "is" arbitrary: d) (simp_all add: length_transform_round)

text \<open>
  Claim C1.  For every non-empty key vector, both operation modes and every byte buffer of
  valid size (in segmented mode: at least as long as the key), encryption succeeds, keeps
  the length, and decryption of the ciphertext returns the plaintext.  Multi-round
  encryption applies the rounds in key order and decryption applies the inverse rounds in
  reverse key order; an encryption round permutes and then XORs the mask, a decryption
  round XORs the mask and then applies the inverse permutation.
\<close>

theorem sinescramble_round_trip:
  assumes "cipher_init k m a f p = Inr c"
    and "m = SEGMENTED \<longrightarrow> length k \<le> length x"
  shows "(\<exists>y. encrypt c x = Inr y \<and> length y = length x \<and> decrypt c y = Inr x)
       \<and> encrypt_multi_round c x = fold (\<lambda>kc d. transform_round c d kc False) k x
       \<and> decrypt_multi_round c x = fold (\<lambda>kc d. transform_round c d kc True) (rev k) x
       \<and> transform_round c x kc False =
           substitute_data (permute_data x (generate_permutation_map_c c kc (length x)) False)
             (generate_substitution_mask c kc (length x))
       \<and> transform_round c x kc True =
           permute_data (substitute_data x (generate_substitution_mask c kc (length x)))
             (generate_permutation_map_c c kc (length x)) True"
proof -
  from assms(1) have c: "k \<noteq> []" "key c = k" "mode c = m" "n c = length k"
    using cipher_init_Inr by blast+
  have rt: "\<exists>y. encrypt c x = Inr y \<and> length y = length x \<and> decrypt c y = Inr x"
  proof (cases m)
    case MULTI_ROUND
    have "length (encrypt_multi_round c x) = length x"
      unfolding encrypt_multi_round_def by (rule length_fold_transform_round)
    then show ?thesis using MULTI_ROUND c(3)
      by (simp add: encrypt_def decrypt_def multi_round_round_trip)
  next
    case SEGMENTED
    then have "n c \<le> length x" "0 < n c" using assms(2) c by auto
    from segmented_round_trip[OF this(2,1)] show ?thesis
      using SEGMENTED c(3) by (simp add: encrypt_def decrypt_def encrypt_segmented_def decrypt_segmented_def)
  qed
  have e: "encrypt_multi_round c x = fold (\<lambda>kc d. transform_round c d kc False) k x"
    unfolding encrypt_multi_round_def c(4) c(2)
    using fold_index_eq_fold_list[of "\<lambda>kc d. transform_round c d kc False" k x] by simp
  have d: "decrypt_multi_round c x = fold (\<lambda>kc d. transform_round c d kc True) (rev k) x"
    unfolding decrypt_multi_round_def c(4) c(2)
    using fold_index_rev_eq_fold_list[of "\<lambda>kc d. transform_round c d kc True" k x] by simp
  show ?thesis using rt e d by (simp add: transform_round_def Let_def)
qed

theorem sinescramble_round_trip_witness:
  "cipher_init [3/2, 5/2] SEGMENTED 100 (1/10) 1
     = Inr \<lparr>key = [3/2, 5/2], mode = SEGMENTED, n = 2, amplitude = 100, frequency = 1/10, phase = 1\<rparr>
   \<and> length [3/2, 5/2 :: real] \<le> length [72, 105, 33 :: byte]
   \<and> (\<exists>y. encrypt \<lparr>key = [3/2, 5/2], mode = SEGMENTED, n = 2, amplitude = 100, frequency = 1/10, phase = 1\<rparr>
              [72, 105, 33] = Inr y
          \<and> decrypt \<lparr>key = [3/2, 5/2], mode = SEGMENTED, n = 2, amplitude = 100, frequency = 1/10, phase = 1\<rparr>
              y = Inr [72, 105, 33])"
proof -
  have i: "cipher_init [3/2, 5/2] SEGMENTED 100 (1/10) 1
     = Inr \<lparr>key = [3/2, 5/2], mode = SEGMENTED, n = 2, amplitude = 100, frequency = 1/10, phase = 1\<rparr>"
    by (simp add: cipher_init_def)
  have h: "SEGMENTED = SEGMENTED \<longrightarrow> length [3/2, 5/2 :: real] \<le> length [72, 105, 33 :: byte]"
    by simp
  from sinescramble_round_trip[OF i h]
  have "\<exists>y. encrypt \<lparr>key = [3/2, 5/2], mode = SEGMENTED, n = 2, amplitude = 100, frequency = 1/10, phase = 1\<rparr>
              [72, 105, 33] = Inr y
          \<and> decrypt \<lparr>key = [3/2, 5/2], mode = SEGMENTED, n = 2, amplitude = 100, frequency = 1/10, phase = 1\<rparr>
              y = Inr [72, 105, 33]" by blast
  moreover have "length [3/2, 5/2 :: real] \<le> length [72, 105, 33 :: byte]" by simp
  ultimately show ?thesis using i by blast
qed

text \<open>
  Claim C9.  In segmented mode, for a key of length \<open>n\<close>, encryption and decryption raise
  \<open>ValueError\<close> on every buffer shorter than \<open>n\<close> (exactly when the segment size
  \<open>len // n\<close> is 0) and accept every buffer of length at least \<open>n\<close>.
\<close>

theorem segmented_size_precondition:
  assumes "cipher_init k SEGMENTED a f p = Inr c"
  shows "(length x < length k \<longrightarrow> encrypt c x = Inl ValueError \<and> decrypt c x = Inl ValueError)
       \<and> (length k \<le> length x \<longrightarrow> (\<exists>y. encrypt c x = Inr y) \<and> (\<exists>y. decrypt c x = Inr y))
       \<and> ((length x div n c = 0) = (length x < length k))"
proof -
  from assms have c: "k \<noteq> []" "key c = k" "mode c = SEGMENTED" "n c = length k"
    using cipher_init_Inr by blast+
  then have n: "0 < n c" by simp
  have a: "length x < length k \<longrightarrow> encrypt c x = Inl ValueError \<and> decrypt c x = Inl ValueError"
    using c process_segments_error[OF n]
    by (simp add: encrypt_def decrypt_def encrypt_segmented_def decrypt_segmented_def)
  have b: "length k \<le> length x \<longrightarrow> (\<exists>y. encrypt c x = Inr y) \<and> (\<exists>y. decrypt c x = Inr y)"
  proof
    assume "length k \<le> length x"
    then have "0 < length x div n c" using n c(4) by (simp add: div_greater_zero_iff)
    then show "(\<exists>y. encrypt c x = Inr y) \<and> (\<exists>y. decrypt c x = Inr y)"
      using c(3) process_segments_eq[OF n]
      by (simp add: encrypt_def decrypt_def encrypt_segmented_def decrypt_segmented_def)
  qed
  have "(length x div n c = 0) = (length x < length k)" using n c(4) by (simp add: div_eq_0_iff)
  with a b show ?thesis by blast
qed

theorem segmented_size_precondition_witness:
  "cipher_init [1, 2] SEGMENTED 100 (1/10) 1
     = Inr \<lparr>key = [1, 2], mode = SEGMENTED, n = 2, amplitude = 100, frequency = 1/10, phase = 1\<rparr>
   \<and> encrypt \<lparr>key = [1, 2], mode = SEGMENTED, n = 2, amplitude = 100, frequency = 1/10, phase = 1\<rparr> [65]
       = Inl ValueError
   \<and> decrypt \<lparr>key = [1, 2], mode = SEGMENTED, n = 2, amplitude = 100, frequency = 1/10, phase = 1\<rparr> [65]
       = Inl ValueError
   \<and> (\<exists>y. encrypt \<lparr>key = [1, 2], mode = SEGMENTED, n = 2, amplitude = 100, frequency = 1/10, phase = 1\<rparr>
          [65, 66] = Inr y)"
proof -
  have i: "cipher_init [1, 2] SEGMENTED 100 (1/10) 1
     = Inr \<lparr>key = [1, 2], mode = SEGMENTED, n = 2, amplitude = 100, frequency = 1/10, phase = 1\<rparr>"
    by (simp add: cipher_init_def)
  from segmented_size_precondition[OF i, of "[65]"] segmented_size_precondition[OF i, of "[65, 66]"]
  show ?thesis using i by simp
qed

section \<open>Proofs: permutation core\<close>

lemma length_fold_store: "length (fold (\<lambda>(p, v) t. t[p := v]) ps t) = length t"
  by (induction ps arbitrary: t) (auto split: prod.splits)

lemma fold_store_untouched:
  "q \<notin> fst ` set ps \<Longrightarrow> fold (\<lambda>(p, v) t. t[p := v]) ps t ! q = t ! q"
  by (induction ps arbitrary: t) (auto split: prod.splits)

lemma fold_store_hit:
  "distinct (map fst ps) \<Longrightarrow> (p, v) \<in> set ps \<Longrightarrow> p < length t \<Longrightarrow>
   fold (\<lambda>(p, v) t. t[p := v]) ps t ! p = v"
proof (induction ps arbitrary: t)
  case Nil
  then show ?case by simp
next
  case (Cons a ps)
  obtain q w where a: "a = (q, w)" by (cases a)
  show ?case
  proof (cases "(p, v) = (q, w)")
    case True
    then have "q \<notin> fst ` set ps" using Cons.prems(1) a by auto
    then show ?thesis using True a Cons.prems(3) by (simp add: fold_store_untouched)
  next
    case False
    then have "(p, v) \<in> set ps" using Cons.prems(2) a by auto
    then show ?thesis using Cons.IH[of "t[q := w]"] Cons.prems a by simp
  qed
qed

lemma store_each_fold:
  "list_all (\<lambda>(p, v). p < length t) ps \<Longrightarrow>
   store_each ps t = Inr (fold (\<lambda>(p, v) t. t[p := v]) ps t)"
  by (induction ps t rule: store_each.induct) auto

lemma store_each_error:
  "\<not> list_all (\<lambda>(p, v). p < length t) ps \<Longrightarrow> store_each ps t = Inl IndexError"
  by (induction ps t rule: store_each.induct) auto

lemma scatter_arange_as_store:
  "scatter_arange pm = fold (\<lambda>(p, v) t. t[p := v]) (zip pm [0..<length pm]) (replicate (length pm) 0)"
proof -
  have a: "(\<lambda>(i, p) acc. acc[p := i]) = (\<lambda>(p, v) t. t[p := (v::nat)]) \<circ> (\<lambda>(i, p). (p, i))"
    by (auto simp: fun_eq_iff)
  have b: "map (\<lambda>(i, p). (p, i)) (zip [0..<length pm] pm) = zip pm [0..<length pm]"
    by (rule zip_commute[symmetric])
  show ?thesis
    unfolding scatter_arange_def a by (simp only: fold_map[symmetric] b)
qed

lemma is_perm_scatter_arange:
  assumes "is_perm pm"
  shows "is_perm (scatter_arange pm)"
proof -
  let ?inv = "scatter_arange pm"
  let ?n = "length pm"
  from assms have d: "distinct pm" and s: "set pm = {0..<?n}" by (simp_all add: is_perm_def)
  have l: "length ?inv = ?n" by (rule length_scatter_arange)
  have inj: "?inv ! i \<noteq> ?inv ! j" if "i < ?n" "j < ?n" "i \<noteq> j" for i j
    using pm_nth_scatter[OF d s that(1)] pm_nth_scatter[OF d s that(2)] that(3) by metis
  have dist: "distinct ?inv" using inj l by (simp add: distinct_conv_nth)
  have sub: "set ?inv \<subseteq> {0..<?n}"
    using scatter_arange_bound[OF d s] l by (auto simp: in_set_conv_nth)
  have "card (set ?inv) = ?n" using dist l by (simp add: distinct_card)
  then have "set ?inv = {0..<?n}" using sub by (simp add: card_subset_eq)
  then show ?thesis using dist l by (simp add: is_perm_def)
qed

lemma fold_store_zip_perm:
  assumes "is_perm pm" "length vs = length pm" "length t = length pm"
  shows "fold (\<lambda>(p, v) t. t[p := v]) (zip pm vs) t = gather vs (scatter_arange pm)"
proof (rule nth_equalityI)
  show "length (fold (\<lambda>(p, v) t. t[p := v]) (zip pm vs) t) = length (gather vs (scatter_arange pm))"
    by (simp add: length_fold_store length_gather length_scatter_arange assms(3))
next
  fix k assume "k < length (fold (\<lambda>(p, v) t. t[p := v]) (zip pm vs) t)"
  then have k: "k < length pm" by (simp add: length_fold_store assms(3))
  from assms(1) have d: "distinct pm" and s: "set pm = {0..<length pm}" by (simp_all add: is_perm_def)
  let ?i = "scatter_arange pm ! k"
  have i: "?i < length pm" by (rule scatter_arange_bound[OF d s k])
  have pk: "pm ! ?i = k" by (rule pm_nth_scatter[OF d s k])
  have mem: "(k, vs ! ?i) \<in> set (zip pm vs)"
    using i pk assms(2) by (auto simp: set_zip intro!: exI[of _ ?i])
  have dz: "distinct (map fst (zip pm vs))" using d assms(2) by simp
  have "fold (\<lambda>(p, v) t. t[p := v]) (zip pm vs) t ! k = vs ! ?i"
    by (rule fold_store_hit[OF dz mem]) (simp add: assms(3) k)
  then show "fold (\<lambda>(p, v) t. t[p := v]) (zip pm vs) t ! k = gather vs (scatter_arange pm) ! k"
    using k by (simp add: gather_def length_scatter_arange)
qed

lemma scatter_arange_eq_gather:
  assumes "is_perm pm"
  shows "scatter_arange pm = gather [0..<length pm] (scatter_arange pm)"
  using fold_store_zip_perm[OF assms, of "[0..<length pm]" "replicate (length pm) 0"]
  by (simp add: scatter_arange_as_store[symmetric])

lemma map_from_sorted_as_scatter:
  "map_from_sorted S (length S) = scatter_arange (map snd S)"
proof -
  have a: "(\<lambda>(new_pos, (score, original_pos)) permutation_map. permutation_map[original_pos := new_pos])
         = (\<lambda>(i, p) acc. acc[p := (i::nat)]) \<circ> (\<lambda>(x, y). (x, snd y))"
    by (auto simp: fun_eq_iff)
  have b: "map (\<lambda>(x, y). (x, snd y)) (zip [0..<length S] S) = zip [0..<length S] (map snd S)"
    by (rule zip_map2[symmetric])
  show ?thesis
    unfolding map_from_sorted_def scatter_arange_def a enumerate_eq_zip
    by (simp add: fold_map[symmetric] b)
qed

lemma is_perm_sorted_indices:
  "is_perm (map snd (sort (map (\<lambda>i. (f i, i)) [0..<N])))"
proof -
  let ?S = "sort (map (\<lambda>i. (f i, i)) [0..<N])"
  have "mset (map snd ?S) = image_mset snd (mset ?S)" by simp
  also have "\<dots> = image_mset snd (mset (map (\<lambda>i. (f i, i)) [0..<N]))" by simp
  also have "\<dots> = mset (map snd (map (\<lambda>i. (f i, i)) [0..<N]))" by (simp only: mset_map)
  also have "\<dots> = mset [0..<N]" by (simp add: comp_def)
  finally have m: "mset (map snd ?S) = mset [0..<N]" .
  have "distinct (map snd ?S)" using m by (metis distinct_upt mset_eq_imp_distinct_iff)
  moreover have "set (map snd ?S) = {0..<N}" using m by (metis set_mset_mset set_upt)
  moreover have "length (map snd ?S) = N" by simp
  ultimately show ?thesis unfolding is_perm_def by simp
qed

lemma map_from_sorted_perm:
  "is_perm (map_from_sorted (sort (map (\<lambda>i. (f i, i)) [0..<N])) N)
   \<and> length (map_from_sorted (sort (map (\<lambda>i. (f i, i)) [0..<N])) N) = N"
proof -
  let ?S = "sort (map (\<lambda>i. (f i, i)) [0..<N])"
  have l: "length ?S = N" by simp
  have "map_from_sorted ?S N = scatter_arange (map snd ?S)"
    using map_from_sorted_as_scatter[of ?S] l by simp
  then show ?thesis
    using is_perm_scatter_arange[OF is_perm_sorted_indices[of f N]]
    by (simp add: length_scatter_arange)
qed

lemma get_permutation_map_accepts:
  "(\<exists>pm. get_permutation_map s = Inr pm) = (0 \<le> s \<and> s \<le> 1)"
  by (auto simp: get_permutation_map_def Let_def)

lemma get_permutation_map_perm:
  assumes "get_permutation_map s = Inr pm"
  shows "is_perm pm \<and> length pm = TOTAL_CHARS_TO_PERMUTE"
  using assms map_from_sorted_perm[of "\<lambda>i. sin (s * 100 + real i * (2 / 10)) * 1000 + real i" TOTAL_CHARS_TO_PERMUTE]
  by (auto simp: get_permutation_map_def Let_def split: if_splits)

lemma generate_permutation_map_perm:
  assumes "generate_permutation_map m s = Inr pm"
  shows "is_perm pm \<and> length pm = frame_count m"
proof -
  let ?f = "\<lambda>i. sin ((if s > 2 * pi then py_float_mod s (2 * pi) else s) * 100
                    + real i * offset_factor m) * scale_factor m + real i"
  from assms have "pm = map_from_sorted (sort (map (\<lambda>i. (?f i, i)) [0..<frame_count m])) (frame_count m)"
    by (simp add: generate_permutation_map_def Let_def split: if_splits)
  then show ?thesis using map_from_sorted_perm[of ?f "frame_count m"] by simp
qed

lemma is_perm_bound: "is_perm pm \<Longrightarrow> p \<in> set pm \<Longrightarrow> p < length pm"
  by (simp add: is_perm_def)

lemma enum_pairs:
  "map (\<lambda>(i, p). (p, g i)) (enumerate 0 pm) = zip pm (map g [0..<length pm])"
  by (rule nth_equalityI) (simp_all add: enumerate_eq_zip)

lemma store_pairs_in_range:
  "is_perm pm \<Longrightarrow> length t = length pm \<Longrightarrow>
   list_all (\<lambda>(p, v). p < length t) (zip pm vs)"
  by (auto simp: list_all_iff is_perm_def dest!: set_zip_leftD)

lemma store_each_perm:
  assumes "is_perm pm" "length t = length pm"
  shows "store_each (map (\<lambda>(i, p). (p, g i)) (enumerate 0 pm)) t
       = Inr (gather (map g [0..<length pm]) (scatter_arange pm))"
proof -
  have "store_each (zip pm (map g [0..<length pm])) t
      = Inr (fold (\<lambda>(p, v) t. t[p := v]) (zip pm (map g [0..<length pm])) t)"
    by (rule store_each_fold) (rule store_pairs_in_range[OF assms])
  also have "fold (\<lambda>(p, v) t. t[p := v]) (zip pm (map g [0..<length pm])) t
      = gather (map g [0..<length pm]) (scatter_arange pm)"
    by (rule fold_store_zip_perm[OF assms(1)]) (simp_all add: assms(2))
  finally show ?thesis by (simp only: enum_pairs)
qed

lemma gather_map_nth:
  "length x = length pm \<Longrightarrow> is_perm pm \<Longrightarrow>
   gather (map (\<lambda>i. h (x ! i)) [0..<length pm]) (scatter_arange pm) = map h (gather x (scatter_arange pm))"
proof -
  assume a: "length x = length pm" "is_perm pm"
  have "k < length pm" if "k \<in> set (scatter_arange pm)" for k
    using is_perm_bound[OF is_perm_scatter_arange[OF a(2)] that] by (simp add: length_scatter_arange)
  then show ?thesis by (auto simp: gather_def)
qed

lemma concat_map_singleton: "concat (map (\<lambda>c. [c]) xs) = xs"
  by (induction xs) simp_all

lemma get_inverse_permutation_map_eq:
  assumes "is_perm pm" "length pm = TOTAL_CHARS_TO_PERMUTE"
  shows "get_inverse_permutation_map pm = Inr (scatter_arange pm)"
proof -
  have "get_inverse_permutation_map pm
      = Inr (gather (map (\<lambda>i. i) [0..<length pm]) (scatter_arange pm))"
    unfolding get_inverse_permutation_map_def
    by (rule store_each_perm[OF assms(1)]) (simp add: assms(2))
  then show ?thesis using scatter_arange_eq_gather[OF assms(1)] by simp
qed

lemma apply_permutation_eq:
  assumes "is_perm pm" "length pm = TOTAL_CHARS_TO_PERMUTE" "length x = TOTAL_CHARS_TO_PERMUTE"
  shows "apply_permutation x pm = Inr (gather x (scatter_arange pm))"
proof -
  have "store_each (map (\<lambda>(original_pos, new_pos). (new_pos, [x ! original_pos])) (enumerate 0 pm))
          (replicate TOTAL_CHARS_TO_PERMUTE [])
      = Inr (gather (map (\<lambda>i. [x ! i]) [0..<length pm]) (scatter_arange pm))"
    by (rule store_each_perm[OF assms(1)]) (simp add: assms(2))
  moreover have "gather (map (\<lambda>i. [x ! i]) [0..<length pm]) (scatter_arange pm)
      = map (\<lambda>c. [c]) (gather x (scatter_arange pm))"
    by (rule gather_map_nth) (simp_all add: assms)
  ultimately show ?thesis
    using assms(2,3) by (simp add: apply_permutation_def concat_map_singleton)
qed

lemma apply_inverse_permutation_eq:
  "apply_inverse_permutation x pm = apply_permutation x pm"
  by (simp add: apply_inverse_permutation_def apply_permutation_def)

lemma licensee_round_trip:
  assumes "is_perm pm" "length pm = TOTAL_CHARS_TO_PERMUTE" "length x = TOTAL_CHARS_TO_PERMUTE"
  shows "\<exists>inv y. get_inverse_permutation_map pm = Inr inv \<and> apply_permutation x pm = Inr y
           \<and> length y = length x \<and> apply_inverse_permutation y inv = Inr x"
proof -
  let ?inv = "scatter_arange pm"
  have pi: "is_perm ?inv" by (rule is_perm_scatter_arange[OF assms(1)])
  have li: "length ?inv = TOTAL_CHARS_TO_PERMUTE" by (simp add: length_scatter_arange assms(2))
  have ly: "length (gather x ?inv) = TOTAL_CHARS_TO_PERMUTE" by (simp add: length_gather li)
  have "apply_inverse_permutation (gather x ?inv) ?inv = Inr (gather (gather x ?inv) (scatter_arange ?inv))"
    unfolding apply_inverse_permutation_eq by (rule apply_permutation_eq[OF pi li ly])
  moreover have "gather (gather x ?inv) (scatter_arange ?inv) = x"
    using pi by (intro gather_inverse) (simp_all add: is_perm_def li assms(3))
  ultimately show ?thesis
    using get_inverse_permutation_map_eq[OF assms(1,2)] apply_permutation_eq[OF assms] ly assms(3)
    by simp
qed

lemma get_inverse_permutation_map_m_eq:
  assumes "is_perm pm" "length pm = frame_count m"
  shows "get_inverse_permutation_map_m m pm = Inr (scatter_arange pm)"
proof -
  have "get_inverse_permutation_map_m m pm
      = Inr (gather (map (\<lambda>i. i) [0..<length pm]) (scatter_arange pm))"
    unfolding get_inverse_permutation_map_m_def
    by (rule store_each_perm[OF assms(1)]) (simp add: assms(2))
  then show ?thesis using scatter_arange_eq_gather[OF assms(1)] by simp
qed

lemma apply_permutation_m_eq:
  assumes "is_perm pm" "length pm = frame_count m" "length x = frame_count m"
  shows "apply_permutation_m m x pm = Inr (gather x (scatter_arange pm))"
proof -
  have "store_each (map (\<lambda>(original_pos, new_pos). (new_pos, x ! original_pos)) (enumerate 0 pm))
          (replicate (frame_count m) 0)
      = Inr (gather (map (\<lambda>i. x ! i) [0..<length pm]) (scatter_arange pm))"
    by (rule store_each_perm[OF assms(1)]) (simp add: assms(2))
  moreover have "map (\<lambda>i. x ! i) [0..<length pm] = x"
    using map_nth[of x] assms(2,3) by simp
  ultimately show ?thesis using assms(2,3) by (simp add: apply_permutation_m_def)
qed

lemma apply_inverse_permutation_m_eq:
  "apply_inverse_permutation_m m x pm = apply_permutation_m m x pm"
  by (simp add: apply_inverse_permutation_m_def apply_permutation_m_def)

lemma mutator_round_trip:
  assumes "is_perm pm" "length pm = frame_count m" "length x = frame_count m"
  shows "\<exists>inv y. get_inverse_permutation_map_m m pm = Inr inv \<and> apply_permutation_m m x pm = Inr y
           \<and> length y = length x \<and> apply_inverse_permutation_m m y inv = Inr x"
proof -
  let ?inv = "scatter_arange pm"
  have pi: "is_perm ?inv" by (rule is_perm_scatter_arange[OF assms(1)])
  have li: "length ?inv = frame_count m" by (simp add: length_scatter_arange assms(2))
  have ly: "length (gather x ?inv) = frame_count m" by (simp add: length_gather li)
  have "apply_inverse_permutation_m m (gather x ?inv) ?inv = Inr (gather (gather x ?inv) (scatter_arange ?inv))"
    unfolding apply_inverse_permutation_m_eq by (rule apply_permutation_m_eq[OF pi li ly])
  moreover have "gather (gather x ?inv) (scatter_arange ?inv) = x"
    using pi by (intro gather_inverse) (simp_all add: is_perm_def li assms(3))
  ultimately show ?thesis
    using get_inverse_permutation_map_m_eq[OF assms(1,2)] apply_permutation_m_eq[OF assms] ly assms(3)
    by simp
qed

text \<open>
  Claim C3.  Round trip of the permutation core.  For the Licensee functions (the size is
  the module constant 440) and for the SineShift mutator (the size is its \<open>frame_count\<close>,
  any \<open>N\<close>): for every key the map generator accepts and every sequence of that size,
  applying the generated map and then the inverse map restores the sequence.
\<close>

theorem permutation_core_round_trip:
  "((\<exists>pm. get_permutation_map s = Inr pm) \<and> length x = TOTAL_CHARS_TO_PERMUTE \<longrightarrow>
      (\<exists>pm inv y. get_permutation_map s = Inr pm \<and> get_inverse_permutation_map pm = Inr inv
         \<and> apply_permutation x pm = Inr y \<and> apply_inverse_permutation y inv = Inr x))
   \<and> ((\<exists>pm. generate_permutation_map m s' = Inr pm) \<and> length x' = frame_count m \<longrightarrow>
      (\<exists>pm inv y. generate_permutation_map m s' = Inr pm \<and> get_inverse_permutation_map_m m pm = Inr inv
         \<and> apply_permutation_m m x' pm = Inr y \<and> apply_inverse_permutation_m m y inv = Inr x'))"
proof (intro conjI impI)
  assume a: "(\<exists>pm. get_permutation_map s = Inr pm) \<and> length x = TOTAL_CHARS_TO_PERMUTE"
  then obtain pm where pm: "get_permutation_map s = Inr pm" by blast
  from get_permutation_map_perm[OF pm] have p: "is_perm pm" "length pm = TOTAL_CHARS_TO_PERMUTE"
    by simp_all
  from licensee_round_trip[OF p] a pm
  show "\<exists>pm inv y. get_permutation_map s = Inr pm \<and> get_inverse_permutation_map pm = Inr inv
         \<and> apply_permutation x pm = Inr y \<and> apply_inverse_permutation y inv = Inr x"
    by blast
next
  assume a: "(\<exists>pm. generate_permutation_map m s' = Inr pm) \<and> length x' = frame_count m"
  then obtain pm where pm: "generate_permutation_map m s' = Inr pm" by blast
  from generate_permutation_map_perm[OF pm] have p: "is_perm pm" "length pm = frame_count m"
    by simp_all
  from mutator_round_trip[OF p] a pm
  show "\<exists>pm inv y. generate_permutation_map m s' = Inr pm \<and> get_inverse_permutation_map_m m pm = Inr inv
         \<and> apply_permutation_m m x' pm = Inr y \<and> apply_inverse_permutation_m m y inv = Inr x'"
    by blast
qed

theorem permutation_core_round_trip_witness:
  "(\<exists>pm. get_permutation_map (42 / 100) = Inr pm)
   \<and> length (replicate 440 CHR ''A'') = TOTAL_CHARS_TO_PERMUTE
   \<and> (\<exists>pm inv y. get_permutation_map (42 / 100) = Inr pm \<and> get_inverse_permutation_map pm = Inr inv
         \<and> apply_permutation (replicate 440 CHR ''A'') pm = Inr y
         \<and> apply_inverse_permutation y inv = Inr (replicate 440 CHR ''A''))
   \<and> (\<exists>pm. generate_permutation_map (create_mutator 8) (42 / 100) = Inr pm)
   \<and> length [65, 66, 67, 68, 69, 70, 71, 72 :: int] = frame_count (create_mutator 8)
   \<and> (\<exists>pm inv y. generate_permutation_map (create_mutator 8) (42 / 100) = Inr pm
         \<and> get_inverse_permutation_map_m (create_mutator 8) pm = Inr inv
         \<and> apply_permutation_m (create_mutator 8) [65, 66, 67, 68, 69, 70, 71, 72 :: int] pm = Inr y
         \<and> apply_inverse_permutation_m (create_mutator 8) y inv = Inr [65, 66, 67, 68, 69, 70, 71, 72])"
proof -
  have a: "\<exists>pm. get_permutation_map (42 / 100) = Inr pm"
    by (simp add: get_permutation_map_def Let_def)
  have b: "length (replicate 440 CHR ''A'') = TOTAL_CHARS_TO_PERMUTE"
    by (simp add: TOTAL_CHARS_TO_PERMUTE_def)
  have c: "\<exists>pm. generate_permutation_map (create_mutator 8) (42 / 100) = Inr pm"
    by (simp add: generate_permutation_map_def Let_def)
  have d: "length [65, 66, 67, 68, 69, 70, 71, 72 :: int] = frame_count (create_mutator 8)"
    by (simp add: create_mutator_def)
  from permutation_core_round_trip[of "42 / 100" "replicate 440 CHR ''A''" "create_mutator 8" "42 / 100"
      "[65, 66, 67, 68, 69, 70, 71, 72 :: int]"] a b c d
  show ?thesis by blast
qed

lemma py_float_mod_range:
  assumes "0 < b"
  shows "0 \<le> py_float_mod a b \<and> py_float_mod a b < b"
proof -
  define q where "q = real_of_int \<lfloor>a / b\<rfloor>"
  have "q \<le> a / b" unfolding q_def by simp
  then have "q * b \<le> (a / b) * b" using assms by (intro mult_right_mono) simp_all
  then have l: "q * b \<le> a" using assms by simp
  have "a / b < q + 1" unfolding q_def by linarith
  then have "(a / b) * b < (q + 1) * b" using assms by (intro mult_strict_right_mono) simp_all
  then have "a < (q + 1) * b" using assms by simp
  then have u: "a - q * b < b" by (simp add: algebra_simps)
  show ?thesis using l u by (simp add: py_float_mod_def q_def)
qed

lemma generate_permutation_map_normalizes:
  assumes "2 * pi < s"
  shows "generate_permutation_map m s = generate_permutation_map m (py_float_mod s (2 * pi))"
proof -
  have r: "0 \<le> py_float_mod s (2 * pi) \<and> py_float_mod s (2 * pi) < 2 * pi"
    by (rule py_float_mod_range) simp
  have "0 < s" using assms pi_gt_zero by linarith
  then show ?thesis using assms r
    by (simp add: generate_permutation_map_def Let_def not_less)
qed

lemma generate_permutation_map_accepts:
  "(\<exists>pm. generate_permutation_map m s = Inr pm) = (0 \<le> s)"
  by (auto simp: generate_permutation_map_def Let_def)

text \<open>
  Claim C8, as amended.  The SineShift generator accepts every key \<open>s \<ge> 0\<close> (and rejects
  negative keys), reduces a key above \<open>2 * pi\<close> modulo \<open>2 * pi\<close>, and returns a bijection
  of \<open>[0..frame_count)\<close>.  The Licensee generator accepts exactly the keys in
  \<open>[0, 1]\<close>, without any reduction, and what it returns is a bijection of \<open>[0..440)\<close>.
\<close>

theorem score_key_domain:
  "(0 \<le> s \<longrightarrow>
      (\<exists>pm. generate_permutation_map m s = Inr pm \<and> length pm = frame_count m
         \<and> distinct pm \<and> set pm = {0..<frame_count m}))
   \<and> (2 * pi < s \<longrightarrow>
        generate_permutation_map m s = generate_permutation_map m (py_float_mod s (2 * pi)))
   \<and> (s < 0 \<longrightarrow> generate_permutation_map m s = Inl ValueError)
   \<and> ((\<exists>pm. get_permutation_map s = Inr pm) = (0 \<le> s \<and> s \<le> 1))
   \<and> (get_permutation_map s = Inr pm' \<longrightarrow>
        length pm' = TOTAL_CHARS_TO_PERMUTE \<and> distinct pm'
        \<and> set pm' = {0..<TOTAL_CHARS_TO_PERMUTE})"
proof (intro conjI impI)
  assume "0 \<le> s"
  then obtain pm where pm: "generate_permutation_map m s = Inr pm"
    using generate_permutation_map_accepts[of m s] by blast
  from generate_permutation_map_perm[OF pm] pm
  show "\<exists>pm. generate_permutation_map m s = Inr pm \<and> length pm = frame_count m
         \<and> distinct pm \<and> set pm = {0..<frame_count m}"
    by (auto simp: is_perm_def)
next
  assume "2 * pi < s"
  then show "generate_permutation_map m s = generate_permutation_map m (py_float_mod s (2 * pi))"
    by (rule generate_permutation_map_normalizes)
next
  assume "s < 0"
  then show "generate_permutation_map m s = Inl ValueError"
    by (simp add: generate_permutation_map_def)
next
  show "(\<exists>pm. get_permutation_map s = Inr pm) = (0 \<le> s \<and> s \<le> 1)"
    by (rule get_permutation_map_accepts)
next
  assume a: "get_permutation_map s = Inr pm'"
  from get_permutation_map_perm[OF a] show "length pm' = TOTAL_CHARS_TO_PERMUTE" by simp
  from get_permutation_map_perm[OF a] show "distinct pm'" by (simp add: is_perm_def)
  from get_permutation_map_perm[OF a] show "set pm' = {0..<TOTAL_CHARS_TO_PERMUTE}"
    by (auto simp: is_perm_def)
qed

theorem score_key_domain_witness:
  "(0::real) \<le> 10 \<and> 2 * pi < 10
   \<and> (\<exists>pm. generate_permutation_map (create_mutator 8) 10 = Inr pm \<and> length pm = 8
         \<and> distinct pm \<and> set pm = {0..<8})
   \<and> generate_permutation_map (create_mutator 8) 10
       = generate_permutation_map (create_mutator 8) (py_float_mod 10 (2 * pi))
   \<and> generate_permutation_map (create_mutator 8) (- 1) = Inl ValueError
   \<and> (\<exists>pm. get_permutation_map (1 / 2) = Inr pm \<and> length pm = 440 \<and> distinct pm
         \<and> set pm = {0..<440})"
proof -
  have p: "2 * pi < 10" using pi_less_4 by simp
  have "\<exists>pm. get_permutation_map (1 / 2) = Inr pm"
    using score_key_domain[of "1 / 2" "create_mutator 8"] by simp
  then obtain pm where pm: "get_permutation_map (1 / 2) = Inr pm" by blast
  have l: "\<exists>pm. get_permutation_map (1 / 2) = Inr pm \<and> length pm = 440 \<and> distinct pm
         \<and> set pm = {0..<440}"
    using score_key_domain[of "1 / 2" "create_mutator 8" pm] pm
    by (simp add: TOTAL_CHARS_TO_PERMUTE_def)
  have g: "\<exists>pm. generate_permutation_map (create_mutator 8) 10 = Inr pm \<and> length pm = 8
         \<and> distinct pm \<and> set pm = {0..<8}"
    using score_key_domain[of 10 "create_mutator 8"] by (simp add: create_mutator_def)
  have n: "generate_permutation_map (create_mutator 8) 10
       = generate_permutation_map (create_mutator 8) (py_float_mod 10 (2 * pi))"
    using score_key_domain[of 10 "create_mutator 8"] p by blast
  have e: "generate_permutation_map (create_mutator 8) (- 1) = Inl ValueError"
    using score_key_domain[of "- 1" "create_mutator 8"] by simp
  show ?thesis using p l g n e by simp
qed

text \<open>
  The claim C8 as written fails on the Licensee generator: the key 2 is non-negative and is
  rejected.
\<close>

theorem score_key_domain_counterexample:
  "(0::real) \<le> 2 \<and> get_permutation_map 2 = Inl ValueError
   \<and> \<not> (\<exists>pm. get_permutation_map 2 = Inr pm)"
  by (simp add: get_permutation_map_def)

section \<open>Proofs: hash expansion\<close>

lemma funpow_extend_append:
  "\<exists>rest. ((\<lambda>e. e @ digest e) ^^ (k + j)) e = ((\<lambda>e. e @ digest e) ^^ k) e @ rest"
proof (induction j)
  case 0
  then show ?case by simp
next
  case (Suc j)
  then obtain rest where "((\<lambda>e. e @ digest e) ^^ (k + j)) e = ((\<lambda>e. e @ digest e) ^^ k) e @ rest"
    by blast
  then show ?case by simp
qed

lemma funpow_extend_length:
  assumes "\<forall>d. length (digest d) = 32"
  shows "length (((\<lambda>e. e @ digest e) ^^ k) e) = length e + 32 * k"
  using assms by (induction k) simp_all

lemma take_funpow_extend:
  assumes "L \<le> length (((\<lambda>e. e @ digest e) ^^ k) e)" "k \<le> k'"
  shows "take L (((\<lambda>e. e @ digest e) ^^ k') e) = take L (((\<lambda>e. e @ digest e) ^^ k) e)"
proof -
  obtain j where "k' = k + j" using assms(2) by (auto simp: le_iff_add)
  then obtain rest where "((\<lambda>e. e @ digest e) ^^ k') e = ((\<lambda>e. e @ digest e) ^^ k) e @ rest"
    using funpow_extend_append[where digest=digest and k=k and j=j and e=e] by blast
  then show ?thesis using assms(1) by simp
qed

lemma extend_loop_result:
  assumes "\<forall>d. length (digest d) = 32"
  shows "\<exists>k. extend_loop digest e len = Some (((\<lambda>e. e @ digest e) ^^ k) e)
           \<and> len \<le> length (((\<lambda>e. e @ digest e) ^^ k) e)"
proof (induction "len - length e" arbitrary: e rule: less_induct)
  case less
  show ?case
  proof (cases "length e < len")
    case False
    then have "extend_loop digest e len = Some e" by (subst extend_loop.simps) simp
    then show ?thesis using False by (intro exI[of _ 0]) simp
  next
    case True
    have "len - length (e @ digest e) < len - length e" using True assms by simp
    from less[OF this] obtain k where
      k: "extend_loop digest (e @ digest e) len = Some (((\<lambda>e. e @ digest e) ^^ k) (e @ digest e))"
         "len \<le> length (((\<lambda>e. e @ digest e) ^^ k) (e @ digest e))"
      by blast
    have "extend_loop digest e len = extend_loop digest (e @ digest e) len"
      using True by (subst extend_loop.simps) simp
    moreover have "((\<lambda>e. e @ digest e) ^^ Suc k) e = ((\<lambda>e. e @ digest e) ^^ k) (e @ digest e)"
      by (simp only: funpow_Suc_right comp_apply)
    ultimately show ?thesis using k by (intro exI[of _ "Suc k"]) (simp only: simp_thms)
  qed
qed

lemma spec_chain_prefix:
  "\<exists>rest. spec_chain digest h (Suc j) = (h @ digest h) @ rest"
  by (cases j) simp_all

text \<open>
  Claim C5, as amended.  With a digest of 32 bytes, \<open>SHA256Hash.hash\<close> returns for every
  input and every requested length \<open>L\<close> exactly \<open>L\<close> bytes: the first \<open>L\<close> bytes of the
  digest of the input when \<open>L \<le> 32\<close>, and in general the first \<open>L\<close> bytes of the buffer
  that starts as the digest of the input and is extended, step after step, by the digest of
  the whole buffer built so far.  Up to 64 bytes this is the chain of the specification
  (\<open>h1\<close> is the digest of \<open>h0\<close>).
\<close>

theorem sha256_xof_expansion:
  assumes "\<forall>d. length (digest d) = 32"
  shows "\<exists>out. SHA256Hash_hash digest D L = Some out \<and> length out = L
          \<and> (L \<le> 32 \<longrightarrow> out = take L (digest D))
          \<and> out = take L (((\<lambda>e. e @ digest e) ^^ (L div 32)) (digest D))
          \<and> (L \<le> 64 \<longrightarrow> out = spec_fixed_digest_xof digest D L)"
proof -
  let ?f = "\<lambda>e. e @ digest e"
  let ?e = "digest D"
  have le: "length ?e = 32" using assms by simp
  have lk: "length ((?f ^^ k) ?e) = 32 + 32 * k" for k
    using funpow_extend_length[OF assms, of k ?e] le by simp
  show ?thesis
  proof (cases "L \<le> 32")
    case True
    have "take L ((?f ^^ (L div 32)) ?e) = take L ((?f ^^ 0) ?e)"
      by (rule take_funpow_extend) (simp_all add: le True)
    then show ?thesis using True le
      by (simp add: SHA256Hash_hash_def spec_fixed_digest_xof_def Let_def)
  next
    case False
    obtain k where k: "extend_loop digest ?e L = Some ((?f ^^ k) ?e)" "L \<le> length ((?f ^^ k) ?e)"
      using extend_loop_result[OF assms, of ?e L] by blast
    have out: "SHA256Hash_hash digest D L = Some (take L ((?f ^^ k) ?e))"
      using False le k(1) by (simp add: SHA256Hash_hash_def Let_def)
    have big: "L \<le> length ((?f ^^ (L div 32)) ?e)"
    proof -
      have "L < 32 * (L div 32) + 32" by arith
      then show ?thesis by (simp add: lk)
    qed
    have eq: "take L ((?f ^^ k) ?e) = take L ((?f ^^ (L div 32)) ?e)"
    proof (cases "k \<le> L div 32")
      case True
      show ?thesis by (rule take_funpow_extend[OF k(2) True, symmetric])
    next
      case False
      then have "L div 32 \<le> k" by simp
      then show ?thesis by (rule take_funpow_extend[OF big])
    qed
    have sp: "take L ((?f ^^ (L div 32)) ?e) = spec_fixed_digest_xof digest D L" if l64: "L \<le> 64"
    proof -
      obtain j where j: "L div 32 = Suc j" using False by (cases "L div 32") (auto simp: div_eq_0_iff)
      have one: "L \<le> length ((?f ^^ 1) ?e)" using l64 lk[of 1] by simp
      have "take L ((?f ^^ (L div 32)) ?e) = take L ((?f ^^ 1) ?e)"
        by (rule take_funpow_extend[OF one]) (simp add: j)
      moreover obtain rest where "spec_chain digest ?e (L div 32) = (?e @ digest ?e) @ rest"
        using spec_chain_prefix[of digest ?e j] j by auto
      ultimately show ?thesis using False l64 le assms
        by (simp add: spec_fixed_digest_xof_def Let_def)
    qed
    show ?thesis using out eq sp big False by simp
  qed
qed

theorem sha256_xof_expansion_witness:
  "(\<forall>d. length (length_digest d) = 32)
   \<and> (\<exists>out. SHA256Hash_hash length_digest [1, 2, 3] 70 = Some out \<and> length out = 70
         \<and> out = take 70 (((\<lambda>e. e @ length_digest e) ^^ (70 div 32)) (length_digest [1, 2, 3])))"
proof -
  have h: "\<forall>d. length (length_digest d) = 32" by (simp add: length_digest_def)
  from sha256_xof_expansion[OF h, of "[1, 2, 3]" 70] h show ?thesis by blast
qed

text \<open>
  The claim C5 as written fails from the third block on: the code hashes the whole buffer
  \<open>h0 || h1\<close>, the specification's chain hashes \<open>h1\<close> alone.  With the stand-in digest the
  two 96-byte results differ in their last block.
\<close>

theorem sha256_xof_expansion_counterexample:
  "SHA256Hash_hash length_digest [] 96
     = Some (replicate 32 0 @ replicate 32 32 @ replicate 32 64)
   \<and> spec_fixed_digest_xof length_digest [] 96 = replicate 32 0 @ replicate 32 32 @ replicate 32 32
   \<and> SHA256Hash_hash length_digest [] 96 \<noteq> Some (spec_fixed_digest_xof length_digest [] 96)"
proof -
  have e: "extend_loop length_digest (replicate 32 0) 96
         = Some (replicate 32 0 @ replicate 32 32 @ replicate 32 64)"
    by (simp add: extend_loop.simps length_digest_def)
  have a: "SHA256Hash_hash length_digest [] 96
     = Some (replicate 32 0 @ replicate 32 32 @ replicate 32 64)"
    using e by (simp add: SHA256Hash_hash_def length_digest_def)
  have "spec_chain length_digest (replicate 32 0) 3
         = replicate 32 0 @ replicate 32 32 @ replicate 32 32 @ replicate 32 32"
    by (simp add: eval_nat_numeral length_digest_def)
  then have b: "spec_fixed_digest_xof length_digest [] 96
         = replicate 32 0 @ replicate 32 32 @ replicate 32 32"
    by (simp add: spec_fixed_digest_xof_def length_digest_def)
  have "replicate 32 (64::byte) \<noteq> replicate 32 32" by (simp add: replicate_eq_replicate)
  then show ?thesis using a b by simp
qed

text \<open>
  For every 32-byte digest, the code and the specification's chain agree on 96 bytes
  exactly when the digest of \<open>h0 || h1\<close> equals the digest of \<open>h1\<close>.
\<close>

lemma xof_96_agree_iff:
  assumes "\<forall>d. length (digest d) = 32"
  shows "(SHA256Hash_hash digest D 96 = Some (spec_fixed_digest_xof digest D 96))
       = (digest (digest D @ digest (digest D)) = digest (digest (digest D)))"
proof -
  let ?e = "digest D"
  have a: "extend_loop digest ?e 96 = Some (?e @ digest ?e @ digest (?e @ digest ?e))"
    using assms by (simp add: extend_loop.simps)
  have b: "spec_chain digest ?e 3 = ?e @ digest ?e @ digest (digest ?e) @ digest (digest (digest ?e))"
    by (simp add: eval_nat_numeral)
  show ?thesis using assms a b
    by (simp add: SHA256Hash_hash_def spec_fixed_digest_xof_def Let_def)
qed

section \<open>Proofs: Licensee generation and validation\<close>

lemma and_then_Inr: "(and_then m f = Inr y) = (\<exists>x. m = Inr x \<and> f x = Inr y)"
  by (cases m) (simp_all add: and_then_def)

lemma chars_to_bits_length:
  "length s \<noteq> 30 \<Longrightarrow> chars_to_bits s = Inl ValueError"
  by (simp add: chars_to_bits_def ENCODED_CHARS_LEN_def TOTAL_BITS_def)

lemma try_unpack_fails: "try_unpack permuted_chars sp \<noteq> Inr d"
proof
  assume "try_unpack permuted_chars sp = Inr d"
  then obtain pm inv y bs where
    pm: "get_permutation_map sp = Inr pm" and
    inv: "get_inverse_permutation_map pm = Inr inv" and
    y: "apply_inverse_permutation permuted_chars inv = Inr y" and
    bs: "chars_to_bits y = Inr bs"
    unfolding try_unpack_def and_then_Inr by blast
  from get_permutation_map_perm[OF pm] have p: "is_perm pm" "length pm = TOTAL_CHARS_TO_PERMUTE"
    by simp_all
  from get_inverse_permutation_map_eq[OF p] inv have i: "inv = scatter_arange pm" by simp
  have pi: "is_perm inv" unfolding i by (rule is_perm_scatter_arange[OF p(1)])
  have li: "length inv = TOTAL_CHARS_TO_PERMUTE" by (simp add: i length_scatter_arange p(2))
  from y have lx: "length permuted_chars = TOTAL_CHARS_TO_PERMUTE"
    by (auto simp: apply_inverse_permutation_def split: if_splits)
  from y apply_permutation_eq[OF pi li lx]
  have "y = gather permuted_chars (scatter_arange inv)"
    by (simp add: apply_inverse_permutation_eq)
  then have "length y = 440"
    by (simp add: length_gather length_scatter_arange li TOTAL_CHARS_TO_PERMUTE_def)
  then have "chars_to_bits y = Inl ValueError" by (intro chars_to_bits_length) simp
  with bs show False by simp
qed

lemma brute_force_fails: "brute_force permuted_chars is = None"
proof (induction "is")
  case Nil
  then show ?case by simp
next
  case (Cons i rest)
  then show ?case
    using try_unpack_fails[of permuted_chars]
    by (simp add: Let_def split: sum.splits)
qed

lemma helper_fails:
  "get_mode_and_swap_param_from_permuted_chars_robust permuted_chars hp = (- 1, 0, None)"
  using try_unpack_fails[of permuted_chars]
  by (simp add: get_mode_and_swap_param_from_permuted_chars_robust_def brute_force_fails
      split: option.splits sum.splits)

lemma validation_result:
  "validate_license_key env license_key_string current_app_version hardcoded_swap_param = Inr None
   \<or> validate_license_key env license_key_string current_app_version hardcoded_swap_param
       = Inl UnicodeEncodeError"
  by (simp add: validate_license_key_def Let_def helper_fails split: sum.splits)

lemma py_split_nonempty: "py_split c s \<noteq> []"
  by (induction s) (auto split: list.splits)

lemma length_py_split: "length (py_split c s) = count_list s c + 1"
proof (induction s)
  case Nil
  then show ?case by simp
next
  case (Cons x xs)
  then show ?case using py_split_nonempty[of c xs] by (auto split: list.splits)
qed

lemma count_py_join: "length ps - 1 \<le> count_list (py_join [c] ps) c"
  by (induction "[c]" ps rule: py_join.induct) auto

lemma length_segments_of_5:
  "length (segments_of 5 xs) = (length xs + 4) div 5"
  by (simp add: segments_of_def)

lemma generated_key_shape:
  assumes "generate_license_key env plan duration grp uid vlock use_included fixed = Inr lkey"
  shows "\<exists>permuted. length permuted = 440 \<and> lkey = py_join ''-'' (segments_of 5 permuted)"
proof -
  from assms obtain swap orig pm permuted where
    pm: "get_permutation_map swap = Inr pm" and
    ap: "apply_permutation orig pm = Inr permuted" and
    k: "lkey = py_join ''-'' (segments_of 5 permuted)"
    by (auto simp: generate_license_key_def Let_def and_then_Inr split: if_splits)
  from get_permutation_map_perm[OF pm] have p: "is_perm pm" "length pm = TOTAL_CHARS_TO_PERMUTE"
    by simp_all
  from ap have lx: "length orig = TOTAL_CHARS_TO_PERMUTE"
    by (auto simp: apply_permutation_def split: if_splits)
  from ap apply_permutation_eq[OF p lx] have "permuted = gather orig (scatter_arange pm)" by simp
  then have "length permuted = 440"
    by (simp add: length_gather length_scatter_arange p(2) TOTAL_CHARS_TO_PERMUTE_def)
  with k show ?thesis by blast
qed

lemma generated_key_parts:
  assumes "generate_license_key env plan duration grp uid vlock use_included fixed = Inr lkey"
  shows "88 \<le> length (py_split CHR ''-'' lkey)"
proof -
  from generated_key_shape[OF assms] obtain permuted where
    l: "length permuted = 440" and k: "lkey = py_join ''-'' (segments_of 5 permuted)" by blast
  have "length (segments_of 5 permuted) = 88" using l by (simp add: length_segments_of_5)
  then have "87 \<le> count_list lkey CHR ''-''"
    using count_py_join[of "segments_of 5 permuted" "CHR ''-''"] k by simp
  then show ?thesis by (simp add: length_py_split)
qed

lemma generated_key_rejected:
  assumes "generate_license_key env plan duration grp uid vlock use_included fixed = Inr lkey"
  shows "validate_license_key env' lkey current_app_version hardcoded_swap_param = Inr None"
  using generated_key_parts[OF assms] by (simp add: validate_license_key_def Let_def)

text \<open>
  Claim C2 does not hold on the code.  \<open>validate_license_key\<close> never returns a payload,
  whatever the key string, the application version and the hardcoded parameter: a key that
  passes the parse has 440 characters, and \<open>chars_to_bits\<close> accepts 30 only, so both
  \<open>try\<close> blocks of the helper fail.  A key that \<open>generate_license_key\<close> returns has at
  least 88 hyphen-separated parts and is already rejected by the first check, which asks for
  exactly 7 parts.
\<close>

theorem validation_never_succeeds:
  "validate_license_key env license_key_string current_app_version hardcoded_swap_param
     \<noteq> Inr (Some payload)
   \<and> (case generate_license_key env plan duration grp uid vlock use_included fixed of
         Inl e \<Rightarrow> True
       | Inr generated \<Rightarrow>
           88 \<le> length (py_split CHR ''-'' generated)
           \<and> validate_license_key env' generated current_app_version hardcoded_swap_param = Inr None)"
proof -
  have "validate_license_key env license_key_string current_app_version hardcoded_swap_param
     \<noteq> Inr (Some payload)"
    using validation_result[of env license_key_string current_app_version hardcoded_swap_param]
    by auto
  moreover have "case generate_license_key env plan duration grp uid vlock use_included fixed of
         Inl e \<Rightarrow> True
       | Inr generated \<Rightarrow>
           88 \<le> length (py_split CHR ''-'' generated)
           \<and> validate_license_key env' generated current_app_version hardcoded_swap_param = Inr None"
    using generated_key_parts generated_key_rejected
    by (cases "generate_license_key env plan duration grp uid vlock use_included fixed") simp_all
  ultimately show ?thesis by blast
qed

lemma length_extract_bytes: "length (extract_bytes k v) = k"
  by (simp add: extract_bytes_def)

lemma to_bits_length: "to_bits d = Inr bs \<Longrightarrow> length bs = 19"
  by (auto simp: to_bits_def and_then_Inr Let_def TOTAL_BITS_def length_extract_bytes
      split: if_splits prod.splits)

text \<open>
  Claim C4 does not hold on the code.  Generation signs the bytes that \<open>to_bits\<close> returns,
  19 of them.  Validation passes the ASCII bytes of the 440 key characters to the verifier,
  before anything is un-permuted or decoded, and the verifier's answer has no influence on
  the outcome: replacing the verifier by any other one gives the same result.
\<close>

theorem signature_coverage_divergence:
  "(case to_bits d of Inl e \<Rightarrow> True | Inr license_data_bytes \<Rightarrow> length license_data_bytes = 19)
   \<and> validate_license_key (env\<lparr>env_verify := vf\<rparr>) license_key_string current_app_version
        hardcoded_swap_param
     = validate_license_key env license_key_string current_app_version hardcoded_swap_param"
proof -
  have "case to_bits d of Inl e \<Rightarrow> True | Inr license_data_bytes \<Rightarrow> length license_data_bytes = 19"
    using to_bits_length[of d] by (cases "to_bits d") simp_all
  moreover have "validate_license_key (env\<lparr>env_verify := vf\<rparr>) license_key_string current_app_version
        hardcoded_swap_param
     = validate_license_key env license_key_string current_app_version hardcoded_swap_param"
    by (simp add: validate_license_key_def Let_def helper_fails split: sum.splits)
  ultimately show ?thesis by blast
qed

section \<open>Proofs: generations of children\<close>

lemma make_child_gen: "make_child self pre g = Inr c \<Longrightarrow> generation c = g"
  by (auto simp: make_child_def and_then_Inr)

lemma first_of_mem: "first_of xs = Inr x \<Longrightarrow> x \<in> set xs"
  by (auto simp: first_of_def split: list.splits)

lemma direct_asexual_gen:
  "direct_asexual_reproduction self = Inr cs \<Longrightarrow> c \<in> set cs \<Longrightarrow> generation c = generation self + 1"
  by (auto simp: direct_asexual_reproduction_def and_then_Inr dest: make_child_gen)

lemma mutate_gen:
  "mutate self m = Inr cs \<Longrightarrow> c \<in> set cs \<Longrightarrow> generation c = generation self + 1"
  by (auto simp: mutate_def and_then_Inr dest: make_child_gen split: if_splits)

lemma rotate_org_gen:
  "rotate_org self p = Inr cs \<Longrightarrow> c \<in> set cs \<Longrightarrow> generation c = generation self + 1"
  by (auto simp: rotate_org_def and_then_Inr Let_def dest: make_child_gen split: if_splits)

lemma permute_gen:
  "permute self pm = Inr cs \<Longrightarrow> c \<in> set cs \<Longrightarrow> generation c = generation self + 1"
  by (auto simp: permute_def and_then_Inr dest: make_child_gen split: if_splits)

lemma reproduce_sexually_gen:
  "reproduce_sexually self partner r = Inr (cs, r') \<Longrightarrow> c \<in> set cs \<Longrightarrow>
   generation c = max (generation self) (generation partner) + 1"
  by (auto simp: reproduce_sexually_def and_then_Inr Let_def dest: make_child_gen split: if_splits)

lemma direct_first_gen:
  "direct_asexual_reproduction self = Inr xs \<Longrightarrow> first_of xs = Inr c \<Longrightarrow>
   generation c = generation self + 1"
  by (rule direct_asexual_gen[OF _ first_of_mem])

lemma mutate_first_gen:
  "mutate self m = Inr xs \<Longrightarrow> first_of xs = Inr c \<Longrightarrow> generation c = generation self + 1"
  by (rule mutate_gen[OF _ first_of_mem])

lemma asexual_self_gen:
  "asexual_self_reproduction self r = Inr (cs, r') \<Longrightarrow> c \<in> set cs \<Longrightarrow>
   generation c = generation self + 1"
  by (auto simp: asexual_self_reproduction_def and_then_Inr Let_def
      dest: make_child_gen direct_first_gen mutate_first_gen split: if_splits)

lemma mutate_then_rotate_gen:
  "mutate_then_rotate m self p = Inr cs \<Longrightarrow> c \<in> set cs \<Longrightarrow> generation c = generation self + 2"
proof -
  assume a: "mutate_then_rotate m self p = Inr cs" and c: "c \<in> set cs"
  from a obtain ml mu where ml: "mutate self m = Inr ml" and mu: "first_of ml = Inr mu"
    and ro: "rotate_org mu p = Inr cs"
    by (auto simp: mutate_then_rotate_def and_then_Inr)
  have "generation mu = generation self + 1" using mutate_gen[OF ml first_of_mem[OF mu]] .
  then show ?thesis using rotate_org_gen[OF ro c] by simp
qed

lemma collect_all:
  assumes "\<And>x ys y. f x = Inr ys \<Longrightarrow> y \<in> set ys \<Longrightarrow> P y"
  shows "collect f xs = Inr zs \<Longrightarrow> z \<in> set zs \<Longrightarrow> P z"
proof (induction xs arbitrary: zs)
  case Nil
  then show ?case by simp
next
  case (Cons x xs)
  from Cons.prems(1) obtain ys ws where ys: "f x = Inr ys" and ws: "collect f xs = Inr ws"
    and zs: "zs = ys @ ws"
    by (auto simp: and_then_Inr)
  show ?case using Cons.prems(2) zs assms[OF ys] Cons.IH[OF ws] by auto
qed

lemma collect_rnd_all:
  assumes "\<And>x r ys r' y. f x r = Inr (ys, r') \<Longrightarrow> y \<in> set ys \<Longrightarrow> P y"
  shows "collect_rnd f xs r = Inr (zs, r') \<Longrightarrow> z \<in> set zs \<Longrightarrow> P z"
proof (induction xs arbitrary: zs r)
  case Nil
  then show ?case by simp
next
  case (Cons x xs)
  from Cons.prems(1) obtain ys r1 ws where ys: "f x r = Inr (ys, r1)"
    and ws: "collect_rnd f xs r1 = Inr (ws, r')" and zs: "zs = ys @ ws"
    by (auto simp: and_then_Inr)
  show ?case using Cons.prems(2) zs assms[OF ys] Cons.IH[OF ws] by auto
qed

lemma both_parents_all:
  assumes "\<And>org ys y. f org x = Inr ys \<Longrightarrow> y \<in> set ys \<Longrightarrow> P org y"
    and "both_parents f self partner x = Inr zs" "z \<in> set zs"
  shows "P self z \<or> P partner z"
  using assms by (auto simp: both_parents_def and_then_Inr)

lemma collect_all_mem:
  assumes "\<And>x ys y. x \<in> set xs \<Longrightarrow> f x = Inr ys \<Longrightarrow> y \<in> set ys \<Longrightarrow> P y"
  shows "collect f xs = Inr zs \<Longrightarrow> z \<in> set zs \<Longrightarrow> P z"
  using assms
proof (induction xs arbitrary: zs)
  case Nil
  then show ?case by simp
next
  case (Cons x xs)
  from Cons.prems(1) obtain ys ws where ys: "f x = Inr ys" and ws: "collect f xs = Inr ws"
    and zs: "zs = ys @ ws"
    by (auto simp: and_then_Inr)
  have a: "z \<in> set ys \<Longrightarrow> P z" using Cons.prems(3)[of x ys z] ys by simp
  have b: "z \<in> set ws \<Longrightarrow> P z"
    by (rule Cons.IH[OF ws]) (auto intro: Cons.prems(3))
  show ?case using Cons.prems(2) zs a b by auto
qed

lemma collect_collect_all:
  assumes "\<And>a b ys y. f a b = Inr ys \<Longrightarrow> y \<in> set ys \<Longrightarrow> P y"
    and "collect (\<lambda>a. collect (f a) bs) as = Inr zs" "z \<in> set zs"
  shows "P z"
proof (rule collect_all[of "\<lambda>a. collect (f a) bs" P, OF _ assms(2,3)])
  fix a ys y
  assume inner: "collect (f a) bs = Inr ys" "y \<in> set ys"
  show "P y"
  proof (rule collect_all[of "f a" P, OF _ inner])
    fix b ws w
    assume "f a b = Inr ws" "w \<in> set ws"
    then show "P w" by (rule assms(1))
  qed
qed

lemma omni_reproduce_gen:
  assumes run: "omni_reproduce self (Some partner) r = Inr (cs, r')" and c: "c \<in> set cs"
  shows "generation c \<in> {generation self + 1, generation partner + 1,
                          generation self + 2, generation partner + 2}"
proof -
  define P :: "Organism \<Rightarrow> bool" where
    "P x \<longleftrightarrow> generation x \<in> {generation self + 1, generation partner + 1,
                              generation self + 2, generation partner + 2}" for x
  have one: "P x" if "generation x = generation self + 1 \<or> generation x = generation partner + 1" for x
    using that by (auto simp: P_def)
  have two: "P x" if "generation x = generation self + 2 \<or> generation x = generation partner + 2" for x
    using that by (auto simp: P_def)
  from run obtain c1 c2 c3 r1 c4 r2 c5 r3 c6 c7 c8 c9 sc r4 c10 where
    e1: "direct_asexual_reproduction self = Inr c1" and
    e2: "direct_asexual_reproduction partner = Inr c2" and
    e3: "asexual_self_reproduction self r = Inr (c3, r1)" and
    e4: "asexual_self_reproduction partner r1 = Inr (c4, r2)" and
    e5: "reproduce_sexually self partner r2 = Inr (c5, r3)" and
    e6: "collect (both_parents mutate self partner) (take 5 (mutation_masks (config self))) = Inr c6" and
    e7: "collect (both_parents rotate_org self partner) (take 5 (rotation_positions (config self))) = Inr c7" and
    e8: "collect (both_parents permute self partner) (take 5 (permutation_maps (config self))) = Inr c8" and
    e9: "collect (\<lambda>mask. collect (both_parents (mutate_then_rotate mask) self partner)
                                     (take 3 (rotation_positions (config self))))
                     (take 3 (mutation_masks (config self))) = Inr c9" and
    e10: "reproduce_sexually self partner r3 = Inr (sc, r4)" and
    e11: "collect (\<lambda>child. collect (mutate child) (take 3 (mutation_masks (config self)))) sc = Inr c10" and
    cs: "cs = c1 @ c2 @ c3 @ c4 @ c5 @ c6 @ c7 @ c8 @ c9 @ c10"
    unfolding omni_reproduce_def Let_def and_then_Inr by (auto simp: and_then_Inr)
  have p1: "\<And>x. x \<in> set c1 \<Longrightarrow> P x" by (rule one) (simp add: direct_asexual_gen[OF e1])
  have p2: "\<And>x. x \<in> set c2 \<Longrightarrow> P x" by (rule one) (simp add: direct_asexual_gen[OF e2])
  have p3: "\<And>x. x \<in> set c3 \<Longrightarrow> P x" by (rule one) (simp add: asexual_self_gen[OF e3])
  have p4: "\<And>x. x \<in> set c4 \<Longrightarrow> P x" by (rule one) (simp add: asexual_self_gen[OF e4])
  have p5: "\<And>x. x \<in> set c5 \<Longrightarrow> P x"
    using reproduce_sexually_gen[OF e5] by (auto simp: P_def)
  have p6: "\<And>x. x \<in> set c6 \<Longrightarrow> P x"
  proof (rule collect_all[where P = P, OF _ e6])
    fix m ys y assume "both_parents mutate self partner m = Inr ys" "y \<in> set ys"
    then show "P y"
      using both_parents_all[where f = mutate and P = "\<lambda>org y. generation y = generation org + 1"]
        mutate_gen one by blast
  qed
  have p7: "\<And>x. x \<in> set c7 \<Longrightarrow> P x"
  proof (rule collect_all[where P = P, OF _ e7])
    fix m ys y assume "both_parents rotate_org self partner m = Inr ys" "y \<in> set ys"
    then show "P y"
      using both_parents_all[where f = rotate_org and P = "\<lambda>org y. generation y = generation org + 1"]
        rotate_org_gen one by blast
  qed
  have p8: "\<And>x. x \<in> set c8 \<Longrightarrow> P x"
  proof (rule collect_all[where P = P, OF _ e8])
    fix m ys y assume "both_parents permute self partner m = Inr ys" "y \<in> set ys"
    then show "P y"
      using both_parents_all[where f = permute and P = "\<lambda>org y. generation y = generation org + 1"]
        permute_gen one by blast
  qed
  have p9: "\<And>x. x \<in> set c9 \<Longrightarrow> P x"
  proof (rule collect_collect_all[where P = P, OF _ e9])
    fix m pos ys y
    assume "both_parents (mutate_then_rotate m) self partner pos = Inr ys" "y \<in> set ys"
    then show "P y"
      using both_parents_all[where f = "mutate_then_rotate m"
          and P = "\<lambda>org y. generation y = generation org + 2"]
        mutate_then_rotate_gen two by blast
  qed
  have p10: "\<And>x. x \<in> set c10 \<Longrightarrow> P x"
  proof (rule collect_all_mem[where P = P, OF _ e11])
    fix child ys y
    assume child: "child \<in> set sc"
      and inner: "collect (mutate child) (take 3 (mutation_masks (config self))) = Inr ys"
        "y \<in> set ys"
    have g: "generation child = max (generation self) (generation partner) + 1"
      by (rule reproduce_sexually_gen[OF e10 child])
    show "P y"
    proof (rule collect_all[where P = P, OF _ inner])
      fix m ws w
      assume "mutate child m = Inr ws" "w \<in> set ws"
      then have "generation w = generation child + 1" by (rule mutate_gen)
      then show "P w" using g by (auto simp: P_def)
    qed
  qed
  from c have "P c" unfolding cs using p1 p2 p3 p4 p5 p6 p7 p8 p9 p10 by auto
  then show ?thesis by (simp add: P_def)
qed

lemma dual_encoded_reproduction_gen:
  "dual_encoded_reproduction self partner r = Inr (cs, r') \<Longrightarrow> c \<in> set cs \<Longrightarrow>
   generation c = max (generation self) (generation partner) + 1"
  by (auto simp: dual_encoded_reproduction_def and_then_Inr Let_def)

lemma demo_organism_init:
  "length g = 2 \<Longrightarrow> Organism_init g demo_config None = Inr (demo_organism g 0)"
  by (simp add: Organism_init_def demo_config_def demo_organism_def demo_strategy_def
      parse_reproduction_strategy_def and_then_def all_methods_def)

lemma dual_organism_init:
  "length g = 2 \<Longrightarrow> Organism_init g dual_config (Some [0, 0]) = Inr (dual_organism g 0)"
  by (simp add: Organism_init_def dual_config_def demo_config_def dual_organism_def
      parse_reproduction_strategy_def parse_genome_strategy_def and_then_def Let_def)

lemma generations_of_Inr:
  "generations_of res = Inr gs \<Longrightarrow> \<exists>cs r. res = Inr (cs, r) \<and> map generation cs = gs"
  by (cases res) (auto simp: generations_of_def)

text \<open>
  Claim C6, as amended.  The children of a single-parent operator (direct asexual,
  asexual self-reproduction, mutation, rotation, permutation) have the generation of their
  parent plus one; the children of sexual reproduction and all children of a dual-encoded
  reproduction have \<open>max(parent generations) + 1\<close>.  \<open>omni_reproduce\<close> returns the children
  as its operators made them: each is one or two generations after one of the two parents.
\<close>

theorem generation_assignment:
  "(direct_asexual_reproduction self = Inr cs1 \<longrightarrow>
      list_all (\<lambda>c. generation c = generation self + 1) cs1)
   \<and> (asexual_self_reproduction self r = Inr (cs2, r2) \<longrightarrow>
      list_all (\<lambda>c. generation c = generation self + 1) cs2)
   \<and> (mutate self m = Inr cs3 \<longrightarrow> list_all (\<lambda>c. generation c = generation self + 1) cs3)
   \<and> (rotate_org self positions = Inr cs4 \<longrightarrow>
      list_all (\<lambda>c. generation c = generation self + 1) cs4)
   \<and> (permute self pm = Inr cs5 \<longrightarrow> list_all (\<lambda>c. generation c = generation self + 1) cs5)
   \<and> (reproduce_sexually self partner r = Inr (cs6, r6) \<longrightarrow>
      list_all (\<lambda>c. generation c = max (generation self) (generation partner) + 1) cs6)
   \<and> (dual_encoded_reproduction self partner r = Inr (cs7, r7) \<longrightarrow>
      list_all (\<lambda>c. generation c = max (generation self) (generation partner) + 1) cs7)
   \<and> (omni_reproduce self (Some partner) r = Inr (cs8, r8) \<longrightarrow>
      list_all (\<lambda>c. generation c \<in> {generation self + 1, generation partner + 1,
                                       generation self + 2, generation partner + 2}) cs8)"
  unfolding list_all_iff
proof (intro conjI impI ballI)
  fix c assume "direct_asexual_reproduction self = Inr cs1" "c \<in> set cs1"
  then show "generation c = generation self + 1" by (rule direct_asexual_gen)
next
  fix c assume "asexual_self_reproduction self r = Inr (cs2, r2)" "c \<in> set cs2"
  then show "generation c = generation self + 1" by (rule asexual_self_gen)
next
  fix c assume "mutate self m = Inr cs3" "c \<in> set cs3"
  then show "generation c = generation self + 1" by (rule mutate_gen)
next
  fix c assume "rotate_org self positions = Inr cs4" "c \<in> set cs4"
  then show "generation c = generation self + 1" by (rule rotate_org_gen)
next
  fix c assume "permute self pm = Inr cs5" "c \<in> set cs5"
  then show "generation c = generation self + 1" by (rule permute_gen)
next
  fix c assume "reproduce_sexually self partner r = Inr (cs6, r6)" "c \<in> set cs6"
  then show "generation c = max (generation self) (generation partner) + 1"
    by (rule reproduce_sexually_gen)
next
  fix c assume "dual_encoded_reproduction self partner r = Inr (cs7, r7)" "c \<in> set cs7"
  then show "generation c = max (generation self) (generation partner) + 1"
    by (rule dual_encoded_reproduction_gen)
next
  fix c assume "omni_reproduce self (Some partner) r = Inr (cs8, r8)" "c \<in> set cs8"
  then show "generation c \<in> {generation self + 1, generation partner + 1,
                              generation self + 2, generation partner + 2}"
    by (rule omni_reproduce_gen)
qed

text \<open>
  Runs of the eight operators on the example organisms, with parents of generations 3
  and 5.
\<close>

theorem generation_assignment_witness:
  "(\<exists>cs. direct_asexual_reproduction (demo_organism [10, 20] 3) = Inr cs \<and> cs \<noteq> []
         \<and> list_all (\<lambda>c. generation c = 4) cs)
   \<and> (\<exists>cs r'. asexual_self_reproduction (demo_organism [10, 20] 3) [] = Inr (cs, r') \<and> cs \<noteq> []
         \<and> list_all (\<lambda>c. generation c = 4) cs)
   \<and> (\<exists>cs. mutate (demo_organism [10, 20] 3) [1, 1] = Inr cs \<and> cs \<noteq> []
         \<and> list_all (\<lambda>c. generation c = 4) cs)
   \<and> (\<exists>cs. rotate_org (demo_organism [10, 20] 3) 1 = Inr cs \<and> cs \<noteq> []
         \<and> list_all (\<lambda>c. generation c = 4) cs)
   \<and> (\<exists>cs. permute (demo_organism [10, 20] 3) [1, 0] = Inr cs \<and> cs \<noteq> []
         \<and> list_all (\<lambda>c. generation c = 4) cs)
   \<and> (\<exists>cs r'. reproduce_sexually (demo_organism [10, 20] 3) (demo_organism [30, 40] 5) []
                 = Inr (cs, r') \<and> cs \<noteq> [] \<and> list_all (\<lambda>c. generation c = 6) cs)
   \<and> (\<exists>cs r'. dual_encoded_reproduction (dual_organism [1, 0] 3) (dual_organism [4, 3] 5) []
                 = Inr (cs, r') \<and> cs \<noteq> [] \<and> list_all (\<lambda>c. generation c = 6) cs)
   \<and> (\<exists>cs r'. omni_reproduce (demo_organism [10, 20] 3) (Some (demo_organism [30, 40] 5)) []
                 = Inr (cs, r') \<and> cs \<noteq> [] \<and> list_all (\<lambda>c. generation c \<in> {4, 6, 5, 7}) cs)"
proof -
  let ?a = "demo_organism [10, 20] 3" and ?b = "demo_organism [30, 40] 5"
  let ?da = "dual_organism [1, 0] 3" and ?db = "dual_organism [4, 3] 5"
  note inst = generation_assignment[where self = ?a and partner = ?b and r = "[]"
      and m = "[1, 1]" and positions = 1 and pm = "[1, 0]"]
  note dinst = generation_assignment[where self = ?da and partner = ?db and r = "[]"]
  have ga: "generation ?a = 3" and gb: "generation ?b = 5"
    and gda: "generation ?da = 3" and gdb: "generation ?db = 5"
    by (simp_all add: demo_organism_def dual_organism_def)
  have "case direct_asexual_reproduction ?a of Inl e \<Rightarrow> False | Inr cs \<Rightarrow> cs \<noteq> []"
    by code_simp
  then obtain cs1 where r1: "direct_asexual_reproduction ?a = Inr cs1" "cs1 \<noteq> []"
    by (cases "direct_asexual_reproduction ?a") auto
  have "case asexual_self_reproduction ?a [] of Inl e \<Rightarrow> False | Inr (cs, r) \<Rightarrow> cs \<noteq> []"
    by code_simp
  then obtain cs2 r2 where r2: "asexual_self_reproduction ?a [] = Inr (cs2, r2)" "cs2 \<noteq> []"
    by (cases "asexual_self_reproduction ?a []") auto
  have "case mutate ?a [1, 1] of Inl e \<Rightarrow> False | Inr cs \<Rightarrow> cs \<noteq> []"
    by code_simp
  then obtain cs3 where r3: "mutate ?a [1, 1] = Inr cs3" "cs3 \<noteq> []"
    by (cases "mutate ?a [1, 1]") auto
  have "case rotate_org ?a 1 of Inl e \<Rightarrow> False | Inr cs \<Rightarrow> cs \<noteq> []"
    by code_simp
  then obtain cs4 where r4: "rotate_org ?a 1 = Inr cs4" "cs4 \<noteq> []"
    by (cases "rotate_org ?a 1") auto
  have "case permute ?a [1, 0] of Inl e \<Rightarrow> False | Inr cs \<Rightarrow> cs \<noteq> []"
    by code_simp
  then obtain cs5 where r5: "permute ?a [1, 0] = Inr cs5" "cs5 \<noteq> []"
    by (cases "permute ?a [1, 0]") auto
  have "case reproduce_sexually ?a ?b [] of Inl e \<Rightarrow> False | Inr (cs, r) \<Rightarrow> cs \<noteq> []"
    by code_simp
  then obtain cs6 r6 where r6: "reproduce_sexually ?a ?b [] = Inr (cs6, r6)" "cs6 \<noteq> []"
    by (cases "reproduce_sexually ?a ?b []") auto
  have "case dual_encoded_reproduction ?da ?db [] of Inl e \<Rightarrow> False | Inr (cs, r) \<Rightarrow> cs \<noteq> []"
    by code_simp
  then obtain cs7 r7 where r7: "dual_encoded_reproduction ?da ?db [] = Inr (cs7, r7)" "cs7 \<noteq> []"
    by (cases "dual_encoded_reproduction ?da ?db []") auto
  have "case omni_reproduce ?a (Some ?b) [] of Inl e \<Rightarrow> False | Inr (cs, r) \<Rightarrow> cs \<noteq> []"
    by code_simp
  then obtain cs8 r8 where r8: "omni_reproduce ?a (Some ?b) [] = Inr (cs8, r8)" "cs8 \<noteq> []"
    by (cases "omni_reproduce ?a (Some ?b) []") auto
  have c1: "list_all (\<lambda>c. generation c = 4) cs1" using inst[where ?cs1.0 = cs1] r1 ga by simp
  have c2: "list_all (\<lambda>c. generation c = 4) cs2"
    using inst[where ?cs2.0 = cs2 and ?r2.0 = r2] r2 ga by simp
  have c3: "list_all (\<lambda>c. generation c = 4) cs3" using inst[where ?cs3.0 = cs3] r3 ga by simp
  have c4: "list_all (\<lambda>c. generation c = 4) cs4" using inst[where ?cs4.0 = cs4] r4 ga by simp
  have c5: "list_all (\<lambda>c. generation c = 4) cs5" using inst[where ?cs5.0 = cs5] r5 ga by simp
  have c6: "list_all (\<lambda>c. generation c = 6) cs6"
    using inst[where ?cs6.0 = cs6 and ?r6.0 = r6] r6 ga gb by simp
  have c7: "list_all (\<lambda>c. generation c = 6) cs7"
    using dinst[where ?cs7.0 = cs7 and ?r7.0 = r7] r7 gda gdb by simp
  have c8: "list_all (\<lambda>c. generation c \<in> {4, 6, 5, 7}) cs8"
    using inst[where ?cs8.0 = cs8 and ?r8.0 = r8] r8 ga gb by simp
  show ?thesis
    using r1 r2 r3 r4 r5 r6 r7 r8 c1 c2 c3 c4 c5 c6 c7 c8 by blast
qed

text \<open>
  The claim C6 as written fails on \<open>omni_reproduce\<close>: from two parents of generation 0
  it returns 18 children, and the last four of them (two combined transformations, two
  enhanced-sexual offspring) have generation 2, not 1.
\<close>

theorem generation_assignment_counterexample:
  "generations_of (omni_reproduce (demo_organism [10, 20] 0) (Some (demo_organism [30, 40] 0)) [])
   = Inr [1, 1, 1, 1, 1, 1, 1, 1, 1, 1, 1, 1, 1, 1, 2, 2, 2, 2]
   \<and> max (generation (demo_organism [10, 20] 0)) (generation (demo_organism [30, 40] 0)) + 1 = 1"
  by code_simp

end
